theory Spec2Isabelle
  imports Main "HOL-Library.Word" "HOL-Library.Multiset"
begin

section \<open>Geometry: the parts of Go's \<open>image\<close> package that \<open>main.go\<close> uses\<close>

text \<open>
  Go's \<open>int\<close> is modelled as \<open>int\<close>: every coordinate of this program stays far below
  \<open>2 ^ 63\<close>. Bytes (\<open>uint8\<close>) are \<open>8 word\<close>.
\<close>

type_synonym byte = "8 word"

record Point =
  X :: int
  Y :: int

record Rectangle =
  MinP :: Point
  MaxP :: Point

definition Pt :: "int \<Rightarrow> int \<Rightarrow> Point" where
  "Pt x y = \<lparr>X = x, Y = y\<rparr>"

definition Dx :: "Rectangle \<Rightarrow> int" where
  "Dx r = X (MaxP r) - X (MinP r)"

definition Dy :: "Rectangle \<Rightarrow> int" where
  "Dy r = Y (MaxP r) - Y (MinP r)"

definition Empty :: "Rectangle \<Rightarrow> bool" where
  "Empty r \<longleftrightarrow> X (MinP r) \<ge> X (MaxP r) \<or> Y (MinP r) \<ge> Y (MaxP r)"

definition ZR :: Rectangle where
  "ZR = \<lparr>MinP = Pt 0 0, MaxP = Pt 0 0\<rparr>"

text \<open>\<open>image.Rect(x0, y0, x1, y1)\<close>: the corners are put in order.\<close>

definition image_Rect :: "int \<Rightarrow> int \<Rightarrow> int \<Rightarrow> int \<Rightarrow> Rectangle" where
  "image_Rect x0 y0 x1 y1 =
     \<lparr>MinP = Pt (if x0 > x1 then x1 else x0) (if y0 > y1 then y1 else y0),
      MaxP = Pt (if x0 > x1 then x0 else x1) (if y0 > y1 then y0 else y1)\<rparr>"

text \<open>\<open>p.In(r)\<close>.\<close>

definition In :: "Point \<Rightarrow> Rectangle \<Rightarrow> bool" where
  "In p r \<longleftrightarrow> X (MinP r) \<le> X p \<and> X p < X (MaxP r) \<and> Y (MinP r) \<le> Y p \<and> Y p < Y (MaxP r)"

text \<open>\<open>r.Intersect(s)\<close>: the largest rectangle in both, the zero rectangle when they are disjoint.\<close>

definition Intersect :: "Rectangle \<Rightarrow> Rectangle \<Rightarrow> Rectangle" where
  "Intersect r s =
     (let r' = \<lparr>MinP = Pt (if X (MinP r) < X (MinP s) then X (MinP s) else X (MinP r))
                          (if Y (MinP r) < Y (MinP s) then Y (MinP s) else Y (MinP r)),
                MaxP = Pt (if X (MaxP r) > X (MaxP s) then X (MaxP s) else X (MaxP r))
                          (if Y (MaxP r) > Y (MaxP s) then Y (MaxP s) else Y (MaxP r))\<rparr>
      in if Empty r' then ZR else r')"

text \<open>\<open>r.Add(p)\<close> translates a rectangle, \<open>p.Sub(q)\<close> subtracts points.\<close>

definition Add :: "Rectangle \<Rightarrow> Point \<Rightarrow> Rectangle" where
  "Add r p = \<lparr>MinP = Pt (X (MinP r) + X p) (Y (MinP r) + Y p),
              MaxP = Pt (X (MaxP r) + X p) (Y (MaxP r) + Y p)\<rparr>"

definition Sub :: "Point \<Rightarrow> Point \<Rightarrow> Point" where
  "Sub p q = Pt (X p - X q) (Y p - Y q)"

text \<open>\<open>r.Overlaps(s)\<close>: the two rectangles have a non-empty intersection.\<close>

definition Overlaps :: "Rectangle \<Rightarrow> Rectangle \<Rightarrow> bool" where
  "Overlaps r s \<longleftrightarrow> \<not> Empty r \<and> \<not> Empty s \<and>
     X (MinP r) < X (MaxP s) \<and> X (MinP s) < X (MaxP r) \<and>
     Y (MinP r) < Y (MaxP s) \<and> Y (MinP s) < Y (MaxP r)"

section \<open>Colours and images\<close>

text \<open>
  A \<open>color.Color\<close> is either the concrete \<open>color.RGBA\<close> (four bytes) or a value of some
  other implementation, of which only the result of its \<open>RGBA()\<close> method is kept
  (four \<open>uint32\<close>).
\<close>

datatype color =
    RGBA byte byte byte byte
  | OtherColor nat nat nat nat

text \<open>The method \<open>RGBA()\<close>; for \<open>color.RGBA\<close> each byte \<open>v\<close> becomes \<open>v | v << 8\<close>.\<close>

fun color_RGBA :: "color \<Rightarrow> nat \<times> nat \<times> nat \<times> nat" where
  "color_RGBA (RGBA r g b a) = (unat r * 257, unat g * 257, unat b * 257, unat a * 257)"
| "color_RGBA (OtherColor r g b a) = (r mod 2 ^ 32, g mod 2 ^ 32, b mod 2 ^ 32, a mod 2 ^ 32)"

definition alpha :: "color \<Rightarrow> nat" where
  "alpha c = (case color_RGBA c of (r, g, b, a) \<Rightarrow> a)"

text \<open>
  The interface \<open>image.Image\<close>, as far as \<open>FindBbox\<close> uses it: the bounds and the colour
  at a pixel. \<open>None\<close> stands for a call \<open>At(x, y).RGBA()\<close> that panics (\<open>At\<close> gave the
  nil colour, or panicked itself).
\<close>

record GoImage =
  Bounds :: Rectangle
  At :: "int \<Rightarrow> int \<Rightarrow> color option"

text \<open>
  \<open>image.Paletted\<close>. The slice \<open>Pix\<close> with its stride is read through \<open>PixOffset\<close> only,
  so it is a function of the pixel's coordinates here.
\<close>

record Paletted =
  Pix :: "int \<Rightarrow> int \<Rightarrow> byte"
  Rect :: Rectangle
  Palette :: "color list"

text \<open>
  \<open>(*Paletted).At\<close>: nil for an empty palette, the first palette entry outside the
  rectangle, and \<open>Palette[Pix[i]]\<close> inside, which panics when the index is out of range.
\<close>

definition Paletted_At :: "Paletted \<Rightarrow> int \<Rightarrow> int \<Rightarrow> color option" where
  "Paletted_At p x y =
     (if Palette p = [] then None
      else if \<not> In (Pt x y) (Rect p) then Some (Palette p ! 0)
      else if unat (Pix p x y) < length (Palette p) then Some (Palette p ! unat (Pix p x y))
      else None)"

definition as_Image :: "Paletted \<Rightarrow> GoImage" where
  "as_Image p = \<lparr>Bounds = Rect p, At = Paletted_At p\<rparr>"

text \<open>\<open>image.NewPaletted(r, p)\<close>: all pixels are index 0.\<close>

definition NewPaletted :: "Rectangle \<Rightarrow> color list \<Rightarrow> Paletted" where
  "NewPaletted r p = \<lparr>Pix = (\<lambda>x y. 0), Rect = r, Palette = p\<rparr>"

section \<open>\<open>FindBbox\<close>\<close>

text \<open>
  The inner loop of each of the four scans: walk one column (or row) from \<open>i\<close> up to
  \<open>hi\<close> and jump out at the first pixel whose alpha is not zero. \<open>Some True\<close> is the
  jump to the label, \<open>Some False\<close> the \<open>continue\<close>.
\<close>

function any_alpha :: "(int \<Rightarrow> color option) \<Rightarrow> int \<Rightarrow> int \<Rightarrow> bool option" where
  "any_alpha f i hi =
     (if i < hi then
        (case f i of
           None \<Rightarrow> None
         | Some c \<Rightarrow> if alpha c \<noteq> 0 then Some True else any_alpha f (i + 1) hi)
      else Some False)"
  by pat_completeness auto
termination
  by (relation "measure (\<lambda>(f, i, hi). nat (hi - i))") auto

definition col_alpha :: "GoImage \<Rightarrow> int \<Rightarrow> bool option" where
  "col_alpha img x = any_alpha (\<lambda>y. At img x y) (Y (MinP (Bounds img))) (Y (MaxP (Bounds img)))"

definition row_alpha :: "GoImage \<Rightarrow> int \<Rightarrow> bool option" where
  "row_alpha img y = any_alpha (\<lambda>x. At img x y) (X (MinP (Bounds img))) (X (MaxP (Bounds img)))"

text \<open>
  The outer loops. \<open>scan_up\<close> is \<open>for v = lo; v < hi; v++\<close> (left, top): it stops at the
  first line with a visible pixel, or at \<open>hi\<close>. \<open>scan_down\<close> is
  \<open>for v = hi - 1; v >= lo; v--\<close> (right, bottom): it stops at the last such line, or
  at \<open>lo - 1\<close>.
\<close>

function scan_up :: "(int \<Rightarrow> bool option) \<Rightarrow> int \<Rightarrow> int \<Rightarrow> int option" where
  "scan_up t v hi =
     (if v < hi then
        (case t v of
           None \<Rightarrow> None
         | Some found \<Rightarrow> if found then Some v else scan_up t (v + 1) hi)
      else Some v)"
  by pat_completeness auto
termination
  by (relation "measure (\<lambda>(t, v, hi). nat (hi - v))") auto

function scan_down :: "(int \<Rightarrow> bool option) \<Rightarrow> int \<Rightarrow> int \<Rightarrow> int option" where
  "scan_down t v lo =
     (if v \<ge> lo then
        (case t v of
           None \<Rightarrow> None
         | Some found \<Rightarrow> if found then Some v else scan_down t (v - 1) lo)
      else Some v)"
  by pat_completeness auto
termination
  by (relation "measure (\<lambda>(t, v, lo). nat (v + 1 - lo))") auto

definition FindBbox :: "GoImage \<Rightarrow> Rectangle option" where
  "FindBbox img =
     (case scan_up (col_alpha img) (X (MinP (Bounds img))) (X (MaxP (Bounds img))) of
        None \<Rightarrow> None
      | Some left \<Rightarrow>
     (case scan_up (row_alpha img) (Y (MinP (Bounds img))) (Y (MaxP (Bounds img))) of
        None \<Rightarrow> None
      | Some top' \<Rightarrow>
     (case scan_down (col_alpha img) (X (MaxP (Bounds img)) - 1) (X (MinP (Bounds img))) of
        None \<Rightarrow> None
      | Some right \<Rightarrow>
     (case scan_down (row_alpha img) (Y (MaxP (Bounds img)) - 1) (Y (MinP (Bounds img))) of
        None \<Rightarrow> None
      | Some bottom \<Rightarrow>
          if right + 1 < left \<or> bottom + 1 < top' then Some (image_Rect 0 0 0 0)
          else Some \<lparr>MinP = Pt left top', MaxP = Pt (right + 1) (bottom + 1)\<rparr>))))"

section \<open>Drawing: \<open>draw.Draw\<close> with \<open>draw.Over\<close> onto a paletted image\<close>

text \<open>
  \<open>draw.Draw(dst, r, src, sp, draw.Over)\<close> with a paletted destination takes the general
  path of \<open>image/draw\<close>: the rectangle is clipped to both images, and every pixel of it is
  replaced by the palette entry nearest to "source over destination".
  The arithmetic is \<open>uint32\<close>, written with \<open>mod 2 ^ 32\<close>.
\<close>

definition clip :: "Rectangle \<Rightarrow> Rectangle \<Rightarrow> Rectangle \<Rightarrow> Point \<Rightarrow> Rectangle" where
  "clip dstb r srcb sp = Intersect (Intersect r dstb) (Add srcb (Sub (MinP r) sp))"

definition sqDiff :: "nat \<Rightarrow> nat \<Rightarrow> nat" where
  "sqDiff x y = (let d = (x + 2 ^ 32 - y mod 2 ^ 32) mod 2 ^ 32 in ((d * d) mod 2 ^ 32) div 4)"

text \<open>\<open>Palette.Index\<close>: the first exact match, else the first entry at the least distance.\<close>

fun Index_loop :: "color list \<Rightarrow> nat \<Rightarrow> nat \<times> nat \<times> nat \<times> nat \<Rightarrow> nat \<Rightarrow> nat \<Rightarrow> nat" where
  "Index_loop [] i c ret bestSum = ret"
| "Index_loop (v # vs) i c ret bestSum =
     (case (c, color_RGBA v) of ((cr, cg, cb, ca), (vr, vg, vb, va)) \<Rightarrow>
        let sum = (sqDiff cr vr + sqDiff cg vg + sqDiff cb vb + sqDiff ca va) mod 2 ^ 32 in
        if sum < bestSum then
          (if sum = 0 then i else Index_loop vs (i + 1) c i sum)
        else Index_loop vs (i + 1) c ret bestSum)"

definition Palette_Index :: "color list \<Rightarrow> nat \<times> nat \<times> nat \<times> nat \<Rightarrow> nat" where
  "Palette_Index p c = Index_loop p 0 c 0 (2 ^ 32 - 1)"

text \<open>
  One pixel: \<open>a := m - sa\<close>, each channel \<open>uint16((d * a + s * m) / m)\<close> with
  \<open>m = 0xffff\<close>; the result is a \<open>color.RGBA64\<close>. This is the general path as the
  Go releases up to 1.16 have it, where the colours are read through \<open>At\<close>. From Go
  1.17 on, the same call reads them through \<open>RGBA64At\<close> and computes
  \<open>uint16(d * a / m) + s\<close>; the two give the same channel whenever
  \<open>d * a + s * m\<close> stays below \<open>2 ^ 32\<close> and the sum below \<open>2 ^ 16\<close>, as it does for
  premultiplied colours and in every example below. \<open>RGBA64At\<close> also reads an image
  with an empty palette as the zero colour, where \<open>At(x, y).RGBA()\<close> panics.
\<close>

definition over_channel :: "nat \<Rightarrow> nat \<Rightarrow> nat \<Rightarrow> nat" where
  "over_channel d s a = (((d * a + s * 65535) mod 2 ^ 32) div 65535) mod 2 ^ 16"

definition over :: "nat \<times> nat \<times> nat \<times> nat \<Rightarrow> nat \<times> nat \<times> nat \<times> nat \<Rightarrow> nat \<times> nat \<times> nat \<times> nat" where
  "over s d =
     (case (s, d) of ((sr, sg, sb, sa), (dr, dg, db, da)) \<Rightarrow>
        let a = (65535 + 2 ^ 32 - ((sa * 65535) mod 2 ^ 32) div 65535) mod 2 ^ 32
        in (over_channel dr sr a, over_channel dg sg a, over_channel db sb a, over_channel da sa a))"

text \<open>
  The new palette index of the destination pixel \<open>(x, y)\<close>; \<open>orig\<close> is the corner of the
  unclipped rectangle, which \<open>sp\<close> is aligned with. \<open>None\<close> is the panic of \<open>RGBA()\<close> on
  a nil colour, or of an index outside the palette.
\<close>

definition draw_pixel :: "Paletted \<Rightarrow> Paletted \<Rightarrow> Point \<Rightarrow> Point \<Rightarrow> int \<Rightarrow> int \<Rightarrow> byte option" where
  "draw_pixel dst src orig sp x y =
     (case Paletted_At src (X sp + (x - X orig)) (Y sp + (y - Y orig)) of
        None \<Rightarrow> None
      | Some s \<Rightarrow>
     (case Paletted_At dst x y of
        None \<Rightarrow> None
      | Some d \<Rightarrow> Some (of_nat (Palette_Index (Palette dst) (over (color_RGBA s) (color_RGBA d))))))"

definition Draw :: "Paletted \<Rightarrow> Rectangle \<Rightarrow> Paletted \<Rightarrow> Point \<Rightarrow> Paletted option" where
  "Draw dst r src sp =
     (let r' = clip (Rect dst) r (Rect src) sp in
      if Empty r' then Some dst
      else if \<exists>x \<in> {X (MinP r') ..< X (MaxP r')}. \<exists>y \<in> {Y (MinP r') ..< Y (MaxP r')}.
                draw_pixel dst src (MinP r) sp x y = None
      then None
      else Some (dst\<lparr>Pix := (\<lambda>x y. if In (Pt x y) r'
                                      then the (draw_pixel dst src (MinP r) sp x y)
                                      else Pix dst x y)\<rparr>))"

text \<open>\<open>(*Paletted).SubImage\<close>.\<close>

definition SubImage :: "Paletted \<Rightarrow> Rectangle \<Rightarrow> Paletted" where
  "SubImage p r =
     (let r' = Intersect r (Rect p) in
      if Empty r' then \<lparr>Pix = (\<lambda>x y. 0), Rect = ZR, Palette = Palette p\<rparr>
      else p\<lparr>Rect := Intersect (Rect p) r'\<rparr>)"

section \<open>Composition: the packing loop of \<open>processOne\<close>\<close>

record FrameInfo =
  BBox :: Rectangle
  Origin :: Point
  Delay :: int
  Action :: int

text \<open>
  Modelled from the spec: package \<open>sprites\<close> (\<open>Frame\<close>, \<open>Animation\<close>) is not among the
  sources. A Frame is "a raster image, its color palette, a delay value, and an action
  code"; \<open>MakeImage\<close> is the paletted image that \<open>frame.MakeImage()\<close> returns. An
  Animation is its ordered sequence of frames.
\<close>

record Frame =
  frame_Palette :: "color list"
  frame_Delay :: int
  frame_Action :: int
  MakeImage :: Paletted

record Animation =
  Frames :: "Frame list"

text \<open>Go's integer division truncates towards zero.\<close>

definition quo :: "int \<Rightarrow> int \<Rightarrow> int" where
  "quo a b = sgn a * sgn b * (\<bar>a\<bar> div \<bar>b\<bar>)"

record PackState =
  left :: int
  top' :: int
  infos :: "FrameInfo list"
  fullPalette :: "color list"
  spriteImg :: Paletted

definition initial :: PackState where
  "initial = \<lparr>left = 0, top' = 0, infos = [], fullPalette = [],
              spriteImg = NewPaletted (image_Rect 0 0 1024 1024) []\<rparr>"

text \<open>
  The wrap of the cursor (lines 118 to 122): the new \<open>(left, top)\<close>, or \<open>None\<close> when
  \<open>FindBbox\<close> panics on the canvas.
\<close>

definition wrap :: "PackState \<Rightarrow> Paletted \<Rightarrow> Rectangle \<Rightarrow> (int \<times> int) option" where
  "wrap s canvas trimBbox =
     (if left s + Dx trimBbox > Dx (Rect canvas) then
        (case FindBbox (as_Image canvas) of
           None \<Rightarrow> None
         | Some cb \<Rightarrow> Some (0, Y (MaxP cb) + 1))
      else Some (left s, top' s))"

text \<open>The body of the inner loop (lines 104 to 129); \<open>None\<close> is a panic.\<close>

definition place :: "PackState \<Rightarrow> Frame \<Rightarrow> PackState option" where
  "place s frame =
     (let img = MakeImage frame;
          canvas = (spriteImg s)\<lparr>Palette := Palette img\<rparr>
      in case FindBbox (as_Image img) of
           None \<Rightarrow> None
         | Some trimBbox \<Rightarrow>
        (case wrap s canvas trimBbox of
           None \<Rightarrow> None
         | Some (l, t) \<Rightarrow>
        (let frameInfo = \<lparr>BBox = \<lparr>MinP = Pt l t, MaxP = Pt (l + Dx trimBbox) (t + Dy trimBbox)\<rparr>,
                          Origin = Pt (quo (Dx (Rect img)) 2 - X (MinP trimBbox))
                                      (quo (Dy (Rect img)) 2 - Y (MinP trimBbox)),
                          Delay = frame_Delay frame,
                          Action = frame_Action frame\<rparr>
         in case Draw canvas (BBox frameInfo) img (MinP trimBbox) of
              None \<Rightarrow> None
            | Some canvas' \<Rightarrow>
                Some \<lparr>left = l + Dx trimBbox + 1, top' = t, infos = infos s @ [frameInfo],
                      fullPalette = frame_Palette frame, spriteImg = canvas'\<rparr>)))"

fun place_frames :: "PackState \<Rightarrow> Frame list \<Rightarrow> PackState option" where
  "place_frames s [] = Some s"
| "place_frames s (frame # frames) =
     (case place s frame of None \<Rightarrow> None | Some s' \<Rightarrow> place_frames s' frames)"

fun place_anims :: "PackState \<Rightarrow> Animation list \<Rightarrow> PackState option" where
  "place_anims s [] = Some s"
| "place_anims s (anim # anims) =
     (case place_frames s (Frames anim) of None \<Rightarrow> None | Some s' \<Rightarrow> place_anims s' anims)"

definition compose :: "Animation list \<Rightarrow> PackState option" where
  "compose anims = place_anims initial anims"

section \<open>The chunk rewriter of \<open>processOne\<close>\<close>

text \<open>
  Errors are values; \<open>errors.Is(err, io.EOF)\<close> holds for \<open>EOF\<close> only.
\<close>

datatype error = EOF | Failure string

record Chunk =
  Length :: int
  Type :: string
  Data :: "byte list"

text \<open>
  Package \<open>pngchunks\<close> is a library outside this repository, so what its reader and
  writer do is a parameter. One call of \<open>NextChunk\<close> returns a pair: the chunk (\<open>None\<close>
  is the nil pointer), paired with what its \<open>Close()\<close> will return, and the error.
\<close>

record Read =
  read_chunk :: "(Chunk \<times> error option) option"
  read_err :: "error option"

text \<open>
  The environment of one job: the results of \<open>os.Create\<close>, \<open>pngchunks.NewReader\<close> and
  \<open>pngchunks.NewWriter\<close>, the successive results of \<open>NextChunk\<close> (after the last one the
  reader returns nil and \<open>io.EOF\<close>), the error of the \<open>n\<close>-th call of \<open>WriteChunk\<close>, and
  the result of \<open>png.Encode\<close>.
\<close>

record Env =
  create_err :: "error option"
  reader_err :: "error option"
  writer_err :: "error option"
  reads :: "Read list"
  write_err :: "nat \<Rightarrow> error option"
  encode_err :: "error option"

datatype outcome = Panicked | Returned "error option"

text \<open>\<open>int32(n)\<close> of a length, and \<open>int16(v)\<close> written little-endian.\<close>

definition int32 :: "nat \<Rightarrow> int" where
  "int32 n = (int n + 2 ^ 31) mod 2 ^ 32 - 2 ^ 31"

definition put_int16 :: "int \<Rightarrow> byte list" where
  "put_int16 v = [word_of_int (v mod 256), word_of_int ((v div 256) mod 256)]"

text \<open>
  \<open>WriteChunk\<close> appends one chunk to the file, or fails; the calls are numbered by the
  chunks written so far.
\<close>

definition WriteChunk :: "(nat \<Rightarrow> error option) \<Rightarrow> Chunk list \<Rightarrow> Chunk \<Rightarrow> error + Chunk list" where
  "WriteChunk werr out c = (case werr (length out) of Some e \<Rightarrow> Inl e | None \<Rightarrow> Inr (out @ [c]))"

text \<open>
  The payload of the palette chunk (lines 181 to 193). The type assertion
  \<open>c.(color.RGBA)\<close> panics on any other colour type: \<open>None\<close>.
\<close>

fun palette_entries :: "color list \<Rightarrow> byte list option" where
  "palette_entries [] = Some []"
| "palette_entries (RGBA r g b a # cs) =
     (case palette_entries cs of None \<Rightarrow> None | Some bs \<Rightarrow> Some ([r, g, b, a, 0xff, 0xff] @ bs))"
| "palette_entries (OtherColor r g b a # cs) = None"

definition palette_payload :: "color list \<Rightarrow> byte list option" where
  "palette_payload pal =
     (case palette_entries pal of
        None \<Rightarrow> None
      | Some bs \<Rightarrow> Some (map of_char ''full'' @ [0x00, 0x08] @ bs))"

text \<open>The payload of the control chunk (lines 200 to 213).\<close>

definition control_record :: "FrameInfo \<Rightarrow> byte list" where
  "control_record info =
     put_int16 (X (MinP (BBox info))) @ put_int16 (Y (MinP (BBox info))) @
     put_int16 (X (MaxP (BBox info))) @ put_int16 (Y (MaxP (BBox info))) @
     put_int16 (X (Origin info)) @ put_int16 (Y (Origin info)) @
     [word_of_int (Delay info), word_of_int (Action info)]"

definition control_payload :: "FrameInfo list \<Rightarrow> byte list" where
  "control_payload is = map of_char ''fsctrl'' @ [0x00, 0xff] @ concat (map control_record is)"

definition sPLT :: "byte list \<Rightarrow> Chunk" where
  "sPLT buf = \<lparr>Length = int32 (length buf), Type = ''sPLT'', Data = buf\<rparr>"

definition zTXt :: "byte list \<Rightarrow> Chunk" where
  "zTXt buf = \<lparr>Length = int32 (length buf), Type = ''zTXt'', Data = buf\<rparr>"

text \<open>
  The block after a \<open>tRNS\<close> chunk (lines 178 to 219). \<open>None\<close> in the first component:
  the block ran through.
\<close>

definition inject :: "(nat \<Rightarrow> error option) \<Rightarrow> color list \<Rightarrow> FrameInfo list \<Rightarrow> Chunk list \<Rightarrow>
    outcome option \<times> Chunk list" where
  "inject werr pal is out =
     (case palette_payload pal of
        None \<Rightarrow> (Some Panicked, out)
      | Some buf \<Rightarrow>
     (case WriteChunk werr out (sPLT buf) of
        Inl e \<Rightarrow> (Some (Returned (Some e)), out)
      | Inr out1 \<Rightarrow>
     (case WriteChunk werr out1 (zTXt (control_payload is)) of
        Inl e \<Rightarrow> (Some (Returned (Some e)), out1)
      | Inr out2 \<Rightarrow> (None, out2))))"

text \<open>
  The loop of lines 166 to 224, over the results of \<open>NextChunk\<close>. \<open>None\<close> in the first
  component: the loop was left by \<open>break\<close>. An error that is not \<open>io.EOF\<close> is not
  returned: the loop goes on to \<open>chunk.Length()\<close>, which dereferences the nil chunk.
\<close>

fun rewrite :: "(nat \<Rightarrow> error option) \<Rightarrow> color list \<Rightarrow> FrameInfo list \<Rightarrow> Read list \<Rightarrow> Chunk list \<Rightarrow>
    outcome option \<times> Chunk list" where
  "rewrite werr pal is [] out = (None, out)"
| "rewrite werr pal is (rd # rds) out =
     (if read_err rd = Some EOF then (None, out)
      else
        (case read_chunk rd of
           None \<Rightarrow> (Some Panicked, out)
         | Some (chunk, close) \<Rightarrow>
        (case WriteChunk werr out \<lparr>Length = Length chunk, Type = Type chunk, Data = Data chunk\<rparr> of
           Inl e \<Rightarrow> (Some (Returned (Some e)), out)
         | Inr out1 \<Rightarrow>
        (case (if Type chunk = ''tRNS'' then inject werr pal is out1 else (None, out1)) of
           (Some stop, out2) \<Rightarrow> (Some stop, out2)
         | (None, out2) \<Rightarrow>
        (case close of
           Some e \<Rightarrow> (Some (Returned (Some e)), out2)
         | None \<Rightarrow> rewrite werr pal is rds out2)))))"

section \<open>\<open>processOne\<close>\<close>

text \<open>
  The result of one job: how the call ended, the index of the output file if
  \<open>os.Create\<close> created it, and the chunks written to it.
\<close>

record Job =
  ended :: outcome
  created :: "int option"
  written :: "Chunk list"

definition processOne :: "Env \<Rightarrow> int \<Rightarrow> Animation list \<Rightarrow> Job" where
  "processOne env idx anims =
     (case compose anims of
        None \<Rightarrow> \<lparr>ended = Panicked, created = None, written = []\<rparr>
      | Some s \<Rightarrow>
     (case FindBbox (as_Image (spriteImg s)) of
        None \<Rightarrow> \<lparr>ended = Panicked, created = None, written = []\<rparr>
      | Some box \<Rightarrow>
     (let subimg = SubImage (spriteImg s) box in
      if Dx (Rect subimg) = 0 \<or> Dy (Rect subimg) = 0
      then \<lparr>ended = Returned None, created = None, written = []\<rparr>
      else
     (case create_err env of
        Some e \<Rightarrow> \<lparr>ended = Returned (Some e), created = None, written = []\<rparr>
      | None \<Rightarrow>
     (case reader_err env of
        Some e \<Rightarrow> \<lparr>ended = Returned (Some e), created = Some idx, written = []\<rparr>
      | None \<Rightarrow>
     (case writer_err env of
        Some e \<Rightarrow> \<lparr>ended = Returned (Some e), created = Some idx, written = []\<rparr>
      | None \<Rightarrow>
     (case rewrite (write_err env) (fullPalette s) (infos s) (reads env) [] of
        (Some stop, out) \<Rightarrow> \<lparr>ended = stop, created = Some idx, written = out\<rparr>
      | (None, out) \<Rightarrow> \<lparr>ended = Returned (encode_err env), created = Some idx, written = out\<rparr>)))))))"

section \<open>The worker pool of \<open>main\<close>\<close>

text \<open>
  \<open>main\<close> makes a channel with a buffer of \<open>runtime.NumCPU()\<close> jobs, starts as many
  workers in an \<open>errgroup.Group\<close>, sends one job for each sprite, in order, closes the
  channel and waits for the group. A worker receives jobs until the channel is closed and
  empty, and returns at the first job whose \<open>processOne\<close> returns an error.

  The goroutines interleave, so the pool is a transition system. A job is the index of
  its sprite; \<open>run j\<close> is how \<open>processOne\<close> ends on job \<open>j\<close>, and \<open>n\<close> is
  \<open>runtime.NumCPU()\<close>. A worker is between two jobs (\<open>Idle\<close>), inside \<open>processOne\<close>
  (\<open>Running\<close>), or has returned (\<open>Exited\<close>, with what it returned).
\<close>

datatype worker = Idle | Running nat | Exited "error option"

text \<open>
  The state: the jobs \<open>main\<close> has still to send, the buffer of the channel, whether the
  channel is closed, the workers, the jobs whose \<open>processOne\<close> has returned (in the order
  in which they returned), the error the \<open>errgroup.Group\<close> has recorded, and whether a
  panic has ended the process.
\<close>

record Pool =
  pending :: "nat list"
  chan :: "nat list"
  shut :: bool
  workers :: "worker list"
  finished :: "nat list"
  first_err :: "error option"
  died :: bool

definition start :: "nat \<Rightarrow> nat list \<Rightarrow> Pool" where
  "start n jobs = \<lparr>pending = jobs, chan = [], shut = False, workers = replicate n Idle,
                   finished = [], first_err = None, died = False\<rparr>"

text \<open>
  One step of one goroutine. \<open>send\<close> is \<open>ch <- work{spriteIdx, anims}\<close>, which blocks
  while the buffer is full; \<open>close\<close> is \<open>close(ch)\<close>, after the last send; \<open>recv\<close> is one
  round of \<open>for w := range ch\<close>; \<open>job_ok\<close>, \<open>job_err\<close> and \<open>job_panic\<close> are the three
  ways in which \<open>processOne\<close> ends, and after \<open>job_err\<close> the worker returns the error,
  which the group records if it is the first; \<open>leave\<close> is the end of the \<open>range\<close> loop,
  on a closed and empty channel.
\<close>

inductive step :: "(nat \<Rightarrow> outcome) \<Rightarrow> nat \<Rightarrow> Pool \<Rightarrow> Pool \<Rightarrow> bool" for run n where
  send: "pending p = j # js \<Longrightarrow> length (chan p) < n \<Longrightarrow> \<not> died p \<Longrightarrow>
         step run n p (p\<lparr>pending := js, chan := chan p @ [j]\<rparr>)"
| close: "pending p = [] \<Longrightarrow> \<not> shut p \<Longrightarrow> \<not> died p \<Longrightarrow> step run n p (p\<lparr>shut := True\<rparr>)"
| recv: "i < length (workers p) \<Longrightarrow> workers p ! i = Idle \<Longrightarrow> chan p = j # js \<Longrightarrow> \<not> died p \<Longrightarrow>
         step run n p (p\<lparr>chan := js, workers := (workers p)[i := Running j]\<rparr>)"
| job_ok: "i < length (workers p) \<Longrightarrow> workers p ! i = Running j \<Longrightarrow> run j = Returned None \<Longrightarrow>
         \<not> died p \<Longrightarrow>
         step run n p (p\<lparr>workers := (workers p)[i := Idle], finished := finished p @ [j]\<rparr>)"
| job_err: "i < length (workers p) \<Longrightarrow> workers p ! i = Running j \<Longrightarrow> run j = Returned (Some e) \<Longrightarrow>
         \<not> died p \<Longrightarrow>
         step run n p (p\<lparr>workers := (workers p)[i := Exited (Some e)],
                          finished := finished p @ [j],
                          first_err := (case first_err p of None \<Rightarrow> Some e | Some e' \<Rightarrow> Some e')\<rparr>)"
| job_panic: "i < length (workers p) \<Longrightarrow> workers p ! i = Running j \<Longrightarrow> run j = Panicked \<Longrightarrow>
         \<not> died p \<Longrightarrow> step run n p (p\<lparr>died := True\<rparr>)"
| leave: "i < length (workers p) \<Longrightarrow> workers p ! i = Idle \<Longrightarrow> chan p = [] \<Longrightarrow> shut p \<Longrightarrow>
         \<not> died p \<Longrightarrow>
         step run n p (p\<lparr>workers := (workers p)[i := Exited None]\<rparr>)"

text \<open>The states of the executions of \<open>main\<close> on a list of jobs.\<close>

inductive reach :: "(nat \<Rightarrow> outcome) \<Rightarrow> nat \<Rightarrow> nat list \<Rightarrow> Pool \<Rightarrow> bool" for run n jobs where
  reach_start: "reach run n jobs (start n jobs)"
| reach_step: "reach run n jobs p \<Longrightarrow> step run n p p' \<Longrightarrow> reach run n jobs p'"










section \<open>Notions used to state the properties\<close>

text \<open>
  A pixel is visible when it lies in the bounds and its alpha is not zero; an image is
  total when \<open>At(x, y).RGBA()\<close> panics nowhere in its bounds.
\<close>

definition visible :: "GoImage \<Rightarrow> int \<Rightarrow> int \<Rightarrow> bool" where
  "visible img x y \<longleftrightarrow> In (Pt x y) (Bounds img) \<and>
     (case At img x y of None \<Rightarrow> False | Some c \<Rightarrow> alpha c \<noteq> 0)"

definition total_on :: "GoImage \<Rightarrow> bool" where
  "total_on img \<longleftrightarrow> (\<forall>x y. In (Pt x y) (Bounds img) \<longrightarrow> At img x y \<noteq> None)"

text \<open>
  The chunks the loop takes from the reader before it leaves.
\<close>

fun chunks_read :: "Read list \<Rightarrow> Chunk list" where
  "chunks_read [] = []"
| "chunks_read (rd # rds) =
     (if read_err rd = Some EOF then []
      else (case read_chunk rd of None \<Rightarrow> [] | Some (chunk, close) \<Rightarrow> chunk # chunks_read rds))"

fun is_RGBA :: "color \<Rightarrow> bool" where
  "is_RGBA (RGBA r g b a) = True"
| "is_RGBA (OtherColor r g b a) = False"

text \<open>
  A plain colour is fully opaque or all zero (as \<open>RGBA()\<close> returns it). A plain palette
  has at least one and at most 256 entries, all of them plain. An image is indexed by a
  palette when that is its palette and every pixel of its rectangle is an index into it.
\<close>

definition plain :: "color \<Rightarrow> bool" where
  "plain c \<longleftrightarrow>
     (case color_RGBA c of (r, g, b, a) \<Rightarrow>
        (r = 0 \<and> g = 0 \<and> b = 0 \<and> a = 0) \<or>
        (r \<le> 65535 \<and> g \<le> 65535 \<and> b \<le> 65535 \<and> a = 65535))"

definition plain_palette :: "color list \<Rightarrow> bool" where
  "plain_palette P \<longleftrightarrow> P \<noteq> [] \<and> length P \<le> 256 \<and> list_all plain P"

definition indexed_by :: "color list \<Rightarrow> Paletted \<Rightarrow> bool" where
  "indexed_by P img \<longleftrightarrow>
     Palette img = P \<and> (\<forall>x y. In (Pt x y) (Rect img) \<longrightarrow> unat (Pix img x y) < length P)"

text \<open>The distance that \<open>Palette.Index\<close> minimises.\<close>

definition dist4 :: "nat \<times> nat \<times> nat \<times> nat \<Rightarrow> color \<Rightarrow> nat" where
  "dist4 c v = (case (c, color_RGBA v) of ((cr, cg, cb, ca), (vr, vg, vb, va)) \<Rightarrow>
      (sqDiff cr vr + sqDiff cg vg + sqDiff cb vb + sqDiff ca va) mod 2 ^ 32)"

text \<open>
  Notions for the packing loop. The canvas is read through the palette \<open>P\<close> of the frames
  (\<open>spriteImg.Palette\<close> is set to it before every use): \<open>canvas_ok\<close> says that its pixels
  are indices into \<open>P\<close>, \<open>ink\<close> is the visibility of a canvas pixel. A FrameInfo fits
  when its rectangle ends inside the 1024 by 1024 canvas; a list of them is disjoint when
  no two of its rectangles overlap; a FrameInfo is trimmed to a frame when its rectangle
  has the width and height of the frame's bounding box. A palette is keyed when its
  entries are of type \<open>color.RGBA\<close> and entry 0, the colour of the untouched canvas, is
  all zero.
\<close>

definition keyed :: "color list \<Rightarrow> bool" where
  "keyed P \<longleftrightarrow> P \<noteq> [] \<and> list_all is_RGBA P \<and> color_RGBA (P ! 0) = (0, 0, 0, 0)"

definition canvas_ok :: "color list \<Rightarrow> Paletted \<Rightarrow> bool" where
  "canvas_ok P c \<longleftrightarrow> Rect c = image_Rect 0 0 1024 1024 \<and> indexed_by P (c\<lparr>Palette := P\<rparr>)"

definition ink :: "color list \<Rightarrow> Paletted \<Rightarrow> int \<Rightarrow> int \<Rightarrow> bool" where
  "ink P c x y \<longleftrightarrow> visible (as_Image (c\<lparr>Palette := P\<rparr>)) x y"

definition fits :: "FrameInfo \<Rightarrow> bool" where
  "fits info \<longleftrightarrow> X (MaxP (BBox info)) \<le> 1024 \<and> Y (MaxP (BBox info)) \<le> 1024"

definition settled :: "color list \<Rightarrow> PackState \<Rightarrow> FrameInfo \<Rightarrow> bool" where
  "settled P s info \<longleftrightarrow>
     (\<exists>x y. ink P (spriteImg s) x y \<and> Y (MaxP (BBox info)) \<le> y + 1) \<and>
     (Y (MaxP (BBox info)) \<le> top' s \<or>
      (Y (MinP (BBox info)) = top' s \<and> X (MaxP (BBox info)) \<le> left s))"

definition disjoint :: "FrameInfo list \<Rightarrow> bool" where
  "disjoint is \<longleftrightarrow>
     (\<forall>i j. i < j \<and> j < length is \<longrightarrow> \<not> Overlaps (BBox (is ! i)) (BBox (is ! j)))"

text \<open>
  What the packing loop keeps true while every rectangle fits: the canvas is untouched
  outside the rectangles placed so far, each of them lies above the cursor's row or in
  it to the left of the cursor, some visible pixel lies in its last row or below, and
  no two of them overlap.
\<close>

definition row_inv :: "color list \<Rightarrow> PackState \<Rightarrow> bool" where
  "row_inv P s \<longleftrightarrow>
     Rect (spriteImg s) = image_Rect 0 0 1024 1024 \<and> 0 \<le> left s \<and> 0 \<le> top' s \<and>
     (\<forall>x y. Pix (spriteImg s) x y \<noteq> 0 \<longrightarrow> (\<exists>info \<in> set (infos s). In (Pt x y) (BBox info))) \<and>
     (\<forall>info \<in> set (infos s). \<not> Empty (BBox info) \<longrightarrow> settled P s info) \<and>
     disjoint (infos s)"

definition trimmed :: "Frame \<Rightarrow> FrameInfo \<Rightarrow> bool" where
  "trimmed f info \<longleftrightarrow>
     (\<exists>trim. FindBbox (as_Image (MakeImage f)) = Some trim \<and>
        Dx (BBox info) = Dx trim \<and> Dy (BBox info) = Dy trim)"

definition all_frames :: "Animation list \<Rightarrow> Frame list" where
  "all_frames anims = concat (map Frames anims)"

section \<open>The control table, read back\<close>

text \<open>
  The reader of the control table, written from the format of section 4.4 of the
  specification (the program only writes the table): after the eight bytes of keyword
  and format, each record is six 2-byte little-endian signed integers (bbox min x, min y,
  max x, max y, origin x, origin y), then delay and action as one unsigned byte each.
  A FrameInfo is \<open>wire_ok\<close> when its fields are in the range of these encodings.
\<close>

definition get_int16 :: "byte \<Rightarrow> byte \<Rightarrow> int" where
  "get_int16 lo hi = (let v = uint lo + 256 * uint hi in if v < 32768 then v else v - 65536)"

function decode_records :: "byte list \<Rightarrow> FrameInfo list option" where
  "decode_records bs =
     (if bs = [] then Some []
      else if length bs < 14 then None
      else
        (case decode_records (drop 14 bs) of
           None \<Rightarrow> None
         | Some is \<Rightarrow>
             Some (\<lparr>BBox = \<lparr>MinP = Pt (get_int16 (bs ! 0) (bs ! 1)) (get_int16 (bs ! 2) (bs ! 3)),
                            MaxP = Pt (get_int16 (bs ! 4) (bs ! 5)) (get_int16 (bs ! 6) (bs ! 7))\<rparr>,
                    Origin = Pt (get_int16 (bs ! 8) (bs ! 9)) (get_int16 (bs ! 10) (bs ! 11)),
                    Delay = uint (bs ! 12), Action = uint (bs ! 13)\<rparr> # is)))"
  by pat_completeness auto
termination
  by (relation "measure length") auto

definition decode_control :: "byte list \<Rightarrow> FrameInfo list option" where
  "decode_control payload =
     (if take 8 payload = map of_char ''fsctrl'' @ [0x00, 0xff]
      then decode_records (drop 8 payload) else None)"

definition int16_ok :: "int \<Rightarrow> bool" where
  "int16_ok v \<longleftrightarrow> - 32768 \<le> v \<and> v < 32768"

definition uint8_ok :: "int \<Rightarrow> bool" where
  "uint8_ok v \<longleftrightarrow> 0 \<le> v \<and> v < 256"

definition wire_ok :: "FrameInfo \<Rightarrow> bool" where
  "wire_ok info \<longleftrightarrow>
     int16_ok (X (MinP (BBox info))) \<and> int16_ok (Y (MinP (BBox info))) \<and>
     int16_ok (X (MaxP (BBox info))) \<and> int16_ok (Y (MaxP (BBox info))) \<and>
     int16_ok (X (Origin info)) \<and> int16_ok (Y (Origin info)) \<and>
     uint8_ok (Delay info) \<and> uint8_ok (Action info)"

text \<open>
  A frame is small when its image lies within \<open>[0, 16384]\<close> in both directions and its
  delay and action are bytes; \<open>bounded\<close> is the invariant of the packing loop that follows.
\<close>

definition small :: "Frame \<Rightarrow> bool" where
  "small f \<longleftrightarrow>
     0 \<le> X (MinP (Rect (MakeImage f))) \<and> X (MinP (Rect (MakeImage f))) \<le> X (MaxP (Rect (MakeImage f))) \<and>
     X (MaxP (Rect (MakeImage f))) \<le> 16384 \<and>
     0 \<le> Y (MinP (Rect (MakeImage f))) \<and> Y (MinP (Rect (MakeImage f))) \<le> Y (MaxP (Rect (MakeImage f))) \<and>
     Y (MaxP (Rect (MakeImage f))) \<le> 16384 \<and>
     uint8_ok (frame_Delay f) \<and> uint8_ok (frame_Action f)"

definition bounded :: "PackState \<Rightarrow> bool" where
  "bounded s \<longleftrightarrow>
     Rect (spriteImg s) = image_Rect 0 0 1024 1024 \<and>
     0 \<le> left s \<and> left s \<le> 16385 \<and> 0 \<le> top' s \<and> top' s \<le> 1025 \<and>
     (\<forall>info \<in> set (infos s). wire_ok info)"

text \<open>
  The frames of the end-to-end example: a 16 by 16 raster with a 2-entry palette, delay
  5, action 1, whose only visible pixel is at \<open>(x, y)\<close>; \<open>speck16\<close> is one of them.
\<close>

definition speck :: "Frame \<Rightarrow> int \<Rightarrow> int \<Rightarrow> bool" where
  "speck f x y \<longleftrightarrow>
     Rect (MakeImage f) = image_Rect 0 0 16 16 \<and> length (Palette (MakeImage f)) = 2 \<and>
     frame_Delay f = 5 \<and> frame_Action f = 1 \<and>
     In (Pt x y) (image_Rect 0 0 16 16) \<and>
     (\<exists>c. Paletted_At (MakeImage f) x y = Some c \<and> alpha c \<noteq> 0) \<and>
     (\<forall>x' y'. In (Pt x' y') (image_Rect 0 0 16 16) \<and> (x', y') \<noteq> (x, y) \<longrightarrow>
        (\<exists>c'. Paletted_At (MakeImage f) x' y' = Some c' \<and> alpha c' = 0))"

section \<open>Concrete inputs\<close>

text \<open>A 2 by 2 image whose only visible pixel is at \<open>(1, 0)\<close>.\<close>

definition dot :: Paletted where
  "dot = \<lparr>Pix = (\<lambda>x y. if x = 1 \<and> y = 0 then 1 else 0), Rect = image_Rect 0 0 2 2,
          Palette = [RGBA 0 0 0 0, RGBA 255 0 0 255]\<rparr>"

text \<open>
  A two-colour palette, and a frame whose image is a \<open>w\<close> by \<open>h\<close> block of opaque pixels.
\<close>

definition P2 :: "color list" where
  "P2 = [RGBA 0 0 0 0, RGBA 255 255 255 255]"

definition block :: "color list \<Rightarrow> int \<Rightarrow> int \<Rightarrow> Frame" where
  "block P w h = \<lparr>frame_Palette = P, frame_Delay = 5, frame_Action = 1,
                  MakeImage = \<lparr>Pix = (\<lambda>x y. 1), Rect = image_Rect 0 0 w h, Palette = P\<rparr>\<rparr>"

definition solid :: "int \<Rightarrow> int \<Rightarrow> Frame" where
  "solid w h = block P2 w h"

text \<open>
  A two-tone palette: plain, entry 0 transparent, entry 1 opaque. \<open>P2\<close> is one; so is
  \<open>PO\<close>, whose entries are not of type \<open>color.RGBA\<close>.
\<close>

definition two_tone :: "color list \<Rightarrow> bool" where
  "two_tone P \<longleftrightarrow> plain_palette P \<and> 2 \<le> length P \<and> alpha (P ! 0) = 0 \<and> alpha (P ! 1) \<noteq> 0"

definition PO :: "color list" where
  "PO = [OtherColor 0 0 0 0, OtherColor 65535 0 0 65535]"

text \<open>
  A frame whose image is a \<open>w\<close> by \<open>h\<close> block of pixels of index \<open>k\<close>, and four palettes
  for it. The first two differ in the place of their one opaque entry; in the third,
  entry 0 is transparent but not all zero; in the fourth, the entries are not of type
  \<open>color.RGBA\<close> and the alpha of entry 1 is 1 of 65535.
\<close>

definition tile :: "color list \<Rightarrow> byte \<Rightarrow> int \<Rightarrow> int \<Rightarrow> Frame" where
  "tile P k w h = \<lparr>frame_Palette = P, frame_Delay = 5, frame_Action = 1,
                   MakeImage = \<lparr>Pix = (\<lambda>x y. k), Rect = image_Rect 0 0 w h, Palette = P\<rparr>\<rparr>"

definition late_white :: "color list" where
  "late_white = [RGBA 0 0 0 0, RGBA 0 0 0 0, RGBA 255 255 255 255]"

definition early_white :: "color list" where
  "early_white = [RGBA 0 0 0 0, RGBA 255 255 255 255, RGBA 0 0 0 0]"

definition red_key :: "color list" where
  "red_key = [RGBA 255 0 0 0, RGBA 0 0 0 1]"

definition faint :: "color list" where
  "faint = [OtherColor 0 0 0 0, OtherColor 0 0 0 1]"

definition speck16 :: "int \<Rightarrow> int \<Rightarrow> Frame" where
  "speck16 x y = \<lparr>frame_Palette = P2, frame_Delay = 5, frame_Action = 1,
                  MakeImage = \<lparr>Pix = (\<lambda>x' y'. if x' = x \<and> y' = y then 1 else 0),
                               Rect = image_Rect 0 0 16 16, Palette = P2\<rparr>\<rparr>"

text \<open>
  A short chunk stream: header, transparency, end, then end-of-stream; and the FrameInfo
  of a one-pixel frame.
\<close>

definition IHDR :: Chunk where
  "IHDR = \<lparr>Length = 2, Type = ''IHDR'', Data = [1, 2]\<rparr>"

definition tRNS :: Chunk where
  "tRNS = \<lparr>Length = 1, Type = ''tRNS'', Data = [0]\<rparr>"

definition IEND :: Chunk where
  "IEND = \<lparr>Length = 0, Type = ''IEND'', Data = []\<rparr>"

definition sample_info :: FrameInfo where
  "sample_info = \<lparr>BBox = \<lparr>MinP = Pt 0 0, MaxP = Pt 1 1\<rparr>, Origin = Pt 8 8, Delay = 5, Action = 1\<rparr>"

definition sample_reads :: "Read list" where
  "sample_reads =
     [\<lparr>read_chunk = Some (IHDR, None), read_err = None\<rparr>,
      \<lparr>read_chunk = Some (tRNS, None), read_err = None\<rparr>,
      \<lparr>read_chunk = Some (IEND, None), read_err = None\<rparr>,
      \<lparr>read_chunk = None, read_err = Some EOF\<rparr>]"

text \<open>
  Two environments in which every call succeeds: in the first the reader delivers one
  \<open>tRNS\<close> chunk, in the second its first result is a nil chunk with an error that is not
  end-of-stream.
\<close>

definition tRNS_only :: Env where
  "tRNS_only = \<lparr>create_err = None, reader_err = None, writer_err = None,
                 reads = [\<lparr>read_chunk = Some (tRNS, None), read_err = None\<rparr>],
                 write_err = (\<lambda>n. None), encode_err = None\<rparr>"

definition truncated :: Env where
  "truncated = \<lparr>create_err = None, reader_err = None, writer_err = None,
                 reads = [\<lparr>read_chunk = None, read_err = Some (Failure ''unexpected EOF'')\<rparr>],
                 write_err = (\<lambda>n. None), encode_err = None\<rparr>"

text \<open>
  A batch in which \<open>processOne\<close> returns an error on job 0 and nil on every other job;
  the state in which its run on one worker and three jobs ends, and the state in which
  its run on two workers and two jobs ends; and the states that the run on one worker
  passes through.
\<close>

definition first_fails :: "nat \<Rightarrow> outcome" where
  "first_fails j = (if j = 0 then Returned (Some (Failure ''create'')) else Returned None)"



definition lone :: "Pool \<Rightarrow> bool" where
  "lone p \<longleftrightarrow> \<not> shut p \<and> \<not> died p \<and> set (finished p) \<subseteq> {0} \<and>
     ((pending p = [0, 1, 2] \<and> chan p = [] \<and> workers p = [Idle]) \<or>
      (pending p = [1, 2] \<and> chan p = [0] \<and> workers p = [Idle]) \<or>
      (pending p = [1, 2] \<and> chan p = [] \<and>
         (workers p = [Running 0] \<or> workers p = [Exited (Some (Failure ''create''))])) \<or>
      (pending p = [2] \<and> chan p = [1] \<and>
         (workers p = [Running 0] \<or> workers p = [Exited (Some (Failure ''create''))])))"

section \<open>Properties of \<open>FindBbox\<close>\<close>

declare any_alpha.simps [simp del] scan_up.simps [simp del] scan_down.simps [simp del]

lemma any_alpha_False:
  "any_alpha f i hi = Some False \<Longrightarrow> i \<le> j \<Longrightarrow> j < hi \<Longrightarrow> \<exists>c. f j = Some c \<and> alpha c = 0"
proof (induction f i hi rule: any_alpha.induct)
  case (1 f i hi)
  from "1.prems" have lt: "i < hi" by simp
  from "1.prems"(1) lt obtain c where c: "f i = Some c" "alpha c = 0"
    and rest: "any_alpha f (i + 1) hi = Some False"
    by (subst (asm) any_alpha.simps) (auto split: option.splits if_splits)
  show ?case
  proof (cases "j = i")
    case True
    with c show ?thesis by simp
  next
    case False
    with "1.prems" have "i + 1 \<le> j" by simp
    with "1.IH" [OF lt c(1) _ rest] c(2) "1.prems"(3) show ?thesis by simp
  qed
qed

lemma any_alpha_True:
  "any_alpha f i hi = Some True \<Longrightarrow> \<exists>j c. i \<le> j \<and> j < hi \<and> f j = Some c \<and> alpha c \<noteq> 0"
proof (induction f i hi rule: any_alpha.induct)
  case (1 f i hi)
  from "1.prems" have lt: "i < hi"
    by (subst (asm) any_alpha.simps) (auto split: if_splits)
  from "1.prems" lt obtain c where c: "f i = Some c"
    by (subst (asm) any_alpha.simps) (auto split: option.splits)
  show ?case
  proof (cases "alpha c \<noteq> 0")
    case True
    with c lt show ?thesis by auto
  next
    case False
    with "1.prems" lt c have "any_alpha f (i + 1) hi = Some True"
      by (subst (asm) any_alpha.simps) simp
    from "1.IH" [OF lt c _ this] False obtain j c' where
      "i + 1 \<le> j" "j < hi" "f j = Some c'" "alpha c' \<noteq> 0" by auto
    then show ?thesis by (intro exI [of _ j] exI [of _ c']) simp
  qed
qed

lemma any_alpha_total:
  "(\<And>j. i \<le> j \<Longrightarrow> j < hi \<Longrightarrow> f j \<noteq> None) \<Longrightarrow> \<exists>b. any_alpha f i hi = Some b"
proof (induction f i hi rule: any_alpha.induct)
  case (1 f i hi)
  show ?case
  proof (cases "i < hi")
    case False
    then show ?thesis by (subst any_alpha.simps) auto
  next
    case True
    with "1.prems" [of i] obtain c where c: "f i = Some c" by auto
    show ?thesis
    proof (cases "alpha c \<noteq> 0")
      case True
      with c \<open>i < hi\<close> show ?thesis by (subst any_alpha.simps) auto
    next
      case False
      have "\<exists>b. any_alpha f (i + 1) hi = Some b"
        using "1.IH" [OF True c] False "1.prems" by simp
      with c True False show ?thesis by (subst any_alpha.simps) auto
    qed
  qed
qed

lemma scan_up_spec:
  "scan_up t v hi = Some k \<Longrightarrow>
     v \<le> k \<and> (\<forall>i. v \<le> i \<and> i < k \<longrightarrow> t i = Some False) \<and> (k < hi \<longrightarrow> t k = Some True) \<and>
     (v \<le> hi \<longrightarrow> k \<le> hi) \<and> (hi \<le> v \<longrightarrow> k = v)"
proof (induction t v hi arbitrary: k rule: scan_up.induct)
  case (1 t v hi)
  show ?case
  proof (cases "v < hi")
    case False
    with "1.prems" have "k = v" by (subst (asm) scan_up.simps) simp
    with False show ?thesis by auto
  next
    case True
    with "1.prems" obtain b where b: "t v = Some b"
      by (subst (asm) scan_up.simps) (auto split: option.splits)
    show ?thesis
    proof (cases b)
      case True
      with "1.prems" \<open>v < hi\<close> b have "k = v" by (subst (asm) scan_up.simps) simp
      with True b \<open>v < hi\<close> show ?thesis by auto
    next
      case False
      with "1.prems" \<open>v < hi\<close> b have r: "scan_up t (v + 1) hi = Some k"
        by (subst (asm) scan_up.simps) simp
      from "1.IH" [OF \<open>v < hi\<close> b _ r] False
      have ih: "v + 1 \<le> k" "\<forall>i. v + 1 \<le> i \<and> i < k \<longrightarrow> t i = Some False"
        "k < hi \<longrightarrow> t k = Some True" "v + 1 \<le> hi \<longrightarrow> k \<le> hi" by auto
      have "t i = Some False" if "v \<le> i" "i < k" for i
        using that ih(2) b False by (cases "i = v") auto
      with ih \<open>v < hi\<close> show ?thesis by auto
    qed
  qed
qed

lemma scan_down_spec:
  "scan_down t v lo = Some k \<Longrightarrow>
     k \<le> v \<and> (\<forall>i. k < i \<and> i \<le> v \<longrightarrow> t i = Some False) \<and> (lo \<le> k \<longrightarrow> t k = Some True) \<and>
     (lo - 1 \<le> v \<longrightarrow> lo - 1 \<le> k) \<and> (v < lo \<longrightarrow> k = v)"
proof (induction t v lo arbitrary: k rule: scan_down.induct)
  case (1 t v lo)
  show ?case
  proof (cases "v \<ge> lo")
    case False
    with "1.prems" have "k = v" by (subst (asm) scan_down.simps) simp
    with False show ?thesis by auto
  next
    case True
    with "1.prems" obtain b where b: "t v = Some b"
      by (subst (asm) scan_down.simps) (auto split: option.splits)
    show ?thesis
    proof (cases b)
      case True
      with "1.prems" \<open>v \<ge> lo\<close> b have "k = v" by (subst (asm) scan_down.simps) simp
      with True b \<open>v \<ge> lo\<close> show ?thesis by auto
    next
      case False
      with "1.prems" \<open>v \<ge> lo\<close> b have r: "scan_down t (v - 1) lo = Some k"
        by (subst (asm) scan_down.simps) simp
      from "1.IH" [OF \<open>v \<ge> lo\<close> b _ r] False
      have ih: "k \<le> v - 1" "\<forall>i. k < i \<and> i \<le> v - 1 \<longrightarrow> t i = Some False"
        "lo \<le> k \<longrightarrow> t k = Some True" "lo - 1 \<le> v - 1 \<longrightarrow> lo - 1 \<le> k" by auto
      have "t i = Some False" if "k < i" "i \<le> v" for i
        using that ih(2) b False by (cases "i = v") auto
      with ih \<open>v \<ge> lo\<close> show ?thesis by auto
    qed
  qed
qed

lemma scan_up_total:
  "(\<And>i. v \<le> i \<Longrightarrow> i < hi \<Longrightarrow> t i \<noteq> None) \<Longrightarrow> \<exists>k. scan_up t v hi = Some k"
proof (induction t v hi rule: scan_up.induct)
  case (1 t v hi)
  show ?case
  proof (cases "v < hi")
    case False
    then show ?thesis by (subst scan_up.simps) auto
  next
    case True
    with "1.prems" [of v] obtain b where b: "t v = Some b" by auto
    show ?thesis
    proof (cases b)
      case True
      with b \<open>v < hi\<close> show ?thesis by (subst scan_up.simps) auto
    next
      case False
      have "\<exists>k. scan_up t (v + 1) hi = Some k"
        using "1.IH" [OF True b] False "1.prems" by simp
      with b True False show ?thesis by (subst scan_up.simps) auto
    qed
  qed
qed

lemma scan_down_total:
  "(\<And>i. lo \<le> i \<Longrightarrow> i \<le> v \<Longrightarrow> t i \<noteq> None) \<Longrightarrow> \<exists>k. scan_down t v lo = Some k"
proof (induction t v lo rule: scan_down.induct)
  case (1 t v lo)
  show ?case
  proof (cases "v \<ge> lo")
    case False
    then show ?thesis by (subst scan_down.simps) auto
  next
    case True
    with "1.prems" [of v] obtain b where b: "t v = Some b" by auto
    show ?thesis
    proof (cases b)
      case True
      with b \<open>v \<ge> lo\<close> show ?thesis by (subst scan_down.simps) auto
    next
      case False
      have "\<exists>k. scan_down t (v - 1) lo = Some k"
        using "1.IH" [OF True b] False "1.prems" by simp
      with b True False show ?thesis by (subst scan_down.simps) auto
    qed
  qed
qed

lemma col_alpha_True:
  assumes "col_alpha img x = Some True" "X (MinP (Bounds img)) \<le> x" "x < X (MaxP (Bounds img))"
  shows "\<exists>y. visible img x y"
proof -
  from any_alpha_True [OF assms(1) [unfolded col_alpha_def]] obtain j c where
    "Y (MinP (Bounds img)) \<le> j" "j < Y (MaxP (Bounds img))" "At img x j = Some c" "alpha c \<noteq> 0"
    by auto
  with assms(2,3) have "visible img x j" by (simp add: visible_def In_def Pt_def)
  then show ?thesis ..
qed

lemma col_alpha_False:
  assumes "col_alpha img x = Some False"
  shows "\<not> visible img x y"
proof
  assume v: "visible img x y"
  then have "Y (MinP (Bounds img)) \<le> y" "y < Y (MaxP (Bounds img))"
    by (simp_all add: visible_def In_def Pt_def)
  from any_alpha_False [OF assms [unfolded col_alpha_def] this] v
  show False by (auto simp: visible_def)
qed

lemma row_alpha_True:
  assumes "row_alpha img y = Some True" "Y (MinP (Bounds img)) \<le> y" "y < Y (MaxP (Bounds img))"
  shows "\<exists>x. visible img x y"
proof -
  from any_alpha_True [OF assms(1) [unfolded row_alpha_def]] obtain j c where
    "X (MinP (Bounds img)) \<le> j" "j < X (MaxP (Bounds img))" "At img j y = Some c" "alpha c \<noteq> 0"
    by auto
  with assms(2,3) have "visible img j y" by (simp add: visible_def In_def Pt_def)
  then show ?thesis ..
qed

lemma row_alpha_False:
  assumes "row_alpha img y = Some False"
  shows "\<not> visible img x y"
proof
  assume v: "visible img x y"
  then have "X (MinP (Bounds img)) \<le> x" "x < X (MaxP (Bounds img))"
    by (simp_all add: visible_def In_def Pt_def)
  from any_alpha_False [OF assms [unfolded row_alpha_def] this] v
  show False by (auto simp: visible_def)
qed

lemma FindBbox_scans:
  assumes "FindBbox img = Some r"
  obtains l t rt b where
    "scan_up (col_alpha img) (X (MinP (Bounds img))) (X (MaxP (Bounds img))) = Some l"
    "scan_up (row_alpha img) (Y (MinP (Bounds img))) (Y (MaxP (Bounds img))) = Some t"
    "scan_down (col_alpha img) (X (MaxP (Bounds img)) - 1) (X (MinP (Bounds img))) = Some rt"
    "scan_down (row_alpha img) (Y (MaxP (Bounds img)) - 1) (Y (MinP (Bounds img))) = Some b"
    "r = (if rt + 1 < l \<or> b + 1 < t then image_Rect 0 0 0 0
          else \<lparr>MinP = Pt l t, MaxP = Pt (rt + 1) (b + 1)\<rparr>)"
  using assms unfolding FindBbox_def by (auto split: option.splits if_splits)

lemma FindBbox_visible:
  assumes fb: "FindBbox img = Some r" and vis: "visible img x0 y0"
  shows "X (MinP r) \<le> x0 \<and> x0 < X (MaxP r) \<and> Y (MinP r) \<le> y0 \<and> y0 < Y (MaxP r) \<and>
         (\<exists>y. visible img (X (MinP r)) y) \<and> (\<exists>y. visible img (X (MaxP r) - 1) y) \<and>
         (\<exists>x. visible img x (Y (MinP r))) \<and> (\<exists>x. visible img x (Y (MaxP r) - 1))"
proof -
  from fb obtain l t rt b where
    sl: "scan_up (col_alpha img) (X (MinP (Bounds img))) (X (MaxP (Bounds img))) = Some l" and
    st: "scan_up (row_alpha img) (Y (MinP (Bounds img))) (Y (MaxP (Bounds img))) = Some t" and
    sr: "scan_down (col_alpha img) (X (MaxP (Bounds img)) - 1) (X (MinP (Bounds img))) = Some rt" and
    sb: "scan_down (row_alpha img) (Y (MaxP (Bounds img)) - 1) (Y (MinP (Bounds img))) = Some b" and
    r: "r = (if rt + 1 < l \<or> b + 1 < t then image_Rect 0 0 0 0
             else \<lparr>MinP = Pt l t, MaxP = Pt (rt + 1) (b + 1)\<rparr>)"
    by (rule FindBbox_scans)
  from vis have inb: "X (MinP (Bounds img)) \<le> x0" "x0 < X (MaxP (Bounds img))"
    "Y (MinP (Bounds img)) \<le> y0" "y0 < Y (MaxP (Bounds img))"
    by (simp_all add: visible_def In_def Pt_def)
  note L = scan_up_spec [OF sl] and T = scan_up_spec [OF st]
    and R = scan_down_spec [OF sr] and B = scan_down_spec [OF sb]
  have l: "l \<le> x0"
  proof (rule ccontr)
    assume "\<not> l \<le> x0"
    with L inb have "col_alpha img x0 = Some False" by auto
    from col_alpha_False [OF this] vis show False by simp
  qed
  have t: "t \<le> y0"
  proof (rule ccontr)
    assume "\<not> t \<le> y0"
    with T inb have "row_alpha img y0 = Some False" by auto
    from row_alpha_False [OF this] vis show False by simp
  qed
  have rt: "x0 \<le> rt"
  proof (rule ccontr)
    assume "\<not> x0 \<le> rt"
    with R inb have "col_alpha img x0 = Some False" by auto
    from col_alpha_False [OF this] vis show False by simp
  qed
  have b: "y0 \<le> b"
  proof (rule ccontr)
    assume "\<not> y0 \<le> b"
    with B inb have "row_alpha img y0 = Some False" by auto
    from row_alpha_False [OF this] vis show False by simp
  qed
  from l rt t b have req: "r = \<lparr>MinP = Pt l t, MaxP = Pt (rt + 1) (b + 1)\<rparr>"
    by (simp add: r)
  from L l inb have "col_alpha img l = Some True" "X (MinP (Bounds img)) \<le> l" "l < X (MaxP (Bounds img))"
    by auto
  from col_alpha_True [OF this] have vl: "\<exists>y. visible img l y" .
  from T t inb have "row_alpha img t = Some True" "Y (MinP (Bounds img)) \<le> t" "t < Y (MaxP (Bounds img))"
    by auto
  from row_alpha_True [OF this] have vt: "\<exists>x. visible img x t" .
  from R rt inb have "col_alpha img rt = Some True" "X (MinP (Bounds img)) \<le> rt" "rt < X (MaxP (Bounds img))"
    by auto
  from col_alpha_True [OF this] have vr: "\<exists>y. visible img rt y" .
  from B b inb have "row_alpha img b = Some True" "Y (MinP (Bounds img)) \<le> b" "b < Y (MaxP (Bounds img))"
    by auto
  from row_alpha_True [OF this] have vb: "\<exists>x. visible img x b" .
  from l t rt b vl vt vr vb show ?thesis
    by (simp add: req Pt_def)
qed

lemma FindBbox_invisible:
  assumes fb: "FindBbox img = Some r" and none: "\<And>x y. \<not> visible img x y"
    and ne: "\<not> Empty (Bounds img)"
  shows "r = ZR"
proof -
  from fb obtain l t rt b where
    sl: "scan_up (col_alpha img) (X (MinP (Bounds img))) (X (MaxP (Bounds img))) = Some l" and
    sr: "scan_down (col_alpha img) (X (MaxP (Bounds img)) - 1) (X (MinP (Bounds img))) = Some rt" and
    r: "r = (if rt + 1 < l \<or> b + 1 < t then image_Rect 0 0 0 0
             else \<lparr>MinP = Pt l t, MaxP = Pt (rt + 1) (b + 1)\<rparr>)"
    by (rule FindBbox_scans)
  from ne have lt: "X (MinP (Bounds img)) < X (MaxP (Bounds img))" by (simp add: Empty_def)
  note L = scan_up_spec [OF sl] and R = scan_down_spec [OF sr]
  have "\<not> l < X (MaxP (Bounds img))"
  proof
    assume "l < X (MaxP (Bounds img))"
    with L have "col_alpha img l = Some True" "X (MinP (Bounds img)) \<le> l" by auto
    from col_alpha_True [OF this \<open>l < _\<close>] none show False by simp
  qed
  moreover have "\<not> X (MinP (Bounds img)) \<le> rt"
  proof
    assume "X (MinP (Bounds img)) \<le> rt"
    with R have "col_alpha img rt = Some True" "rt < X (MaxP (Bounds img))" by auto
    from col_alpha_True [OF this(1) \<open>_ \<le> rt\<close> this(2)] none show False by simp
  qed
  ultimately have "rt + 1 < l" using lt by simp
  then show ?thesis by (simp add: r image_Rect_def ZR_def)
qed

lemma col_alpha_total:
  assumes "total_on img" "X (MinP (Bounds img)) \<le> x" "x < X (MaxP (Bounds img))"
  shows "col_alpha img x \<noteq> None"
proof -
  have "\<exists>b. col_alpha img x = Some b" unfolding col_alpha_def
    by (rule any_alpha_total) (use assms in \<open>simp add: total_on_def In_def Pt_def\<close>)
  then show ?thesis by auto
qed

lemma row_alpha_total:
  assumes "total_on img" "Y (MinP (Bounds img)) \<le> y" "y < Y (MaxP (Bounds img))"
  shows "row_alpha img y \<noteq> None"
proof -
  have "\<exists>b. row_alpha img y = Some b" unfolding row_alpha_def
    by (rule any_alpha_total) (use assms in \<open>simp add: total_on_def In_def Pt_def\<close>)
  then show ?thesis by auto
qed

lemma FindBbox_total:
  assumes "total_on img"
  shows "\<exists>r. FindBbox img = Some r"
proof -
  obtain l where "scan_up (col_alpha img) (X (MinP (Bounds img))) (X (MaxP (Bounds img))) = Some l"
    using scan_up_total [of "X (MinP (Bounds img))" "X (MaxP (Bounds img))" "col_alpha img"]
      col_alpha_total [OF assms] by blast
  moreover
  obtain t where "scan_up (row_alpha img) (Y (MinP (Bounds img))) (Y (MaxP (Bounds img))) = Some t"
    using scan_up_total [of "Y (MinP (Bounds img))" "Y (MaxP (Bounds img))" "row_alpha img"]
      row_alpha_total [OF assms] by blast
  moreover
  obtain rt where "scan_down (col_alpha img) (X (MaxP (Bounds img)) - 1) (X (MinP (Bounds img))) = Some rt"
    using scan_down_total [of "X (MinP (Bounds img))" "X (MaxP (Bounds img)) - 1" "col_alpha img"]
      col_alpha_total [OF assms] by force
  moreover
  obtain b where "scan_down (row_alpha img) (Y (MaxP (Bounds img)) - 1) (Y (MinP (Bounds img))) = Some b"
    using scan_down_total [of "Y (MinP (Bounds img))" "Y (MaxP (Bounds img)) - 1" "row_alpha img"]
      row_alpha_total [OF assms] by force
  ultimately show ?thesis by (simp add: FindBbox_def)
qed

lemma FindBbox_single_pixel:
  assumes inb: "In (Pt x y) (Bounds img)"
    and px: "At img x y = Some c" "alpha c \<noteq> 0"
    and others: "\<And>x' y'. In (Pt x' y') (Bounds img) \<Longrightarrow> (x', y') \<noteq> (x, y) \<Longrightarrow>
                   \<exists>c'. At img x' y' = Some c' \<and> alpha c' = 0"
  shows "FindBbox img = Some \<lparr>MinP = Pt x y, MaxP = Pt (x + 1) (y + 1)\<rparr>"
proof -
  have tot: "total_on img" unfolding total_on_def
  proof (intro allI impI)
    fix x' y' assume "In (Pt x' y') (Bounds img)"
    then show "At img x' y' \<noteq> None"
      using others [of x' y'] px by (cases "(x', y') = (x, y)") auto
  qed
  then obtain r where r: "FindBbox img = Some r" using FindBbox_total by blast
  have vis: "visible img x y" using inb px by (simp add: visible_def)
  have only: "x' = x \<and> y' = y" if "visible img x' y'" for x' y'
    using that others [of x' y'] by (cases "(x', y') = (x, y)") (auto simp: visible_def)
  from FindBbox_visible [OF r vis] obtain ya yb xa xb where
    "visible img (X (MinP r)) ya" "visible img (X (MaxP r) - 1) yb"
    "visible img xa (Y (MinP r))" "visible img xb (Y (MaxP r) - 1)" by blast
  from this(1) [THEN only] this(2) [THEN only] this(3) [THEN only] this(4) [THEN only]
  have "X (MinP r) = x" "Y (MinP r) = y" "X (MaxP r) = x + 1" "Y (MaxP r) = y + 1"
    by simp_all
  then have "r = \<lparr>MinP = Pt x y, MaxP = Pt (x + 1) (y + 1)\<rparr>"
    by (simp add: Pt_def)
  with r show ?thesis by simp
qed

text \<open>
  Claim C8. For every raster with exactly one pixel of non-zero alpha, at \<open>(x, y)\<close>,
  \<open>FindBbox\<close> returns the unit rectangle with min corner \<open>(x, y)\<close> and max corner
  \<open>(x + 1, y + 1)\<close>.
\<close>

theorem FindBbox_unit_rectangle:
  assumes "In (Pt x y) (Bounds img)"
    and "\<exists>c. At img x y = Some c \<and> alpha c \<noteq> 0"
    and "\<forall>x' y'. In (Pt x' y') (Bounds img) \<and> (x', y') \<noteq> (x, y) \<longrightarrow>
           (\<exists>c'. At img x' y' = Some c' \<and> alpha c' = 0)"
  shows "FindBbox img = Some \<lparr>MinP = Pt x y, MaxP = Pt (x + 1) (y + 1)\<rparr>"
proof -
  from assms(2) obtain c where "At img x y = Some c" "alpha c \<noteq> 0" by blast
  with assms(1) show ?thesis
    by (rule FindBbox_single_pixel) (use assms(3) in blast)
qed

theorem FindBbox_unit_rectangle_witness:
  "In (Pt 1 0) (Bounds (as_Image dot)) \<and>
   (\<exists>c. At (as_Image dot) 1 0 = Some c \<and> alpha c \<noteq> 0) \<and>
   FindBbox (as_Image dot) = Some \<lparr>MinP = Pt 1 0, MaxP = Pt 2 1\<rparr>"
proof -
  have h1: "In (Pt 1 0) (Bounds (as_Image dot))"
    by (simp add: as_Image_def dot_def In_def Pt_def image_Rect_def)
  have h2: "\<exists>c. At (as_Image dot) 1 0 = Some c \<and> alpha c \<noteq> 0"
    by (simp add: as_Image_def dot_def Paletted_At_def In_def Pt_def image_Rect_def alpha_def)
  have h3: "\<forall>x' y'. In (Pt x' y') (Bounds (as_Image dot)) \<and> (x', y') \<noteq> (1, 0) \<longrightarrow>
      (\<exists>c'. At (as_Image dot) x' y' = Some c' \<and> alpha c' = 0)"
    by (auto simp: as_Image_def dot_def Paletted_At_def In_def Pt_def image_Rect_def alpha_def)
  from FindBbox_unit_rectangle [OF h1 h2 h3] h1 h2 h3 show ?thesis by simp
qed

section \<open>Properties of rectangles and of drawing\<close>

lemma In_Pt:
  "In (Pt x y) r \<longleftrightarrow> X (MinP r) \<le> x \<and> x < X (MaxP r) \<and> Y (MinP r) \<le> y \<and> y < Y (MaxP r)"
  by (simp add: In_def Pt_def)

lemma X_Pt [simp]: "X (Pt x y) = x" and Y_Pt [simp]: "Y (Pt x y) = y"
  by (simp_all add: Pt_def)

lemma Empty_iff: "Empty r \<longleftrightarrow> (\<forall>x y. \<not> In (Pt x y) r)"
proof
  assume "Empty r"
  then show "\<forall>x y. \<not> In (Pt x y) r" by (auto simp: Empty_def In_Pt)
next
  assume a: "\<forall>x y. \<not> In (Pt x y) r"
  show "Empty r"
  proof (rule ccontr)
    assume "\<not> Empty r"
    then have "In (Pt (X (MinP r)) (Y (MinP r))) r" by (simp add: Empty_def In_Pt)
    with a show False by blast
  qed
qed

lemma In_ZR [simp]: "\<not> In (Pt x y) ZR"
  by (simp add: ZR_def In_Pt)

lemma In_Intersect [simp]: "In (Pt x y) (Intersect a b) \<longleftrightarrow> In (Pt x y) a \<and> In (Pt x y) b"
  by (auto simp: Intersect_def Let_def Empty_def ZR_def In_Pt)

lemma In_Add [simp]: "In (Pt x y) (Add r p) \<longleftrightarrow> In (Pt (x - X p) (y - Y p)) r"
  by (auto simp: Add_def In_Pt)

lemma In_clip:
  "In (Pt x y) (clip db r sb sp) \<longleftrightarrow>
     In (Pt x y) r \<and> In (Pt x y) db \<and> In (Pt (X sp + (x - X (MinP r))) (Y sp + (y - Y (MinP r)))) sb"
  by (simp add: clip_def Sub_def) (auto simp: In_Pt)

lemma Paletted_Pix_same [simp]: "dst\<lparr>Pix := Pix dst\<rparr> = dst"
  by simp

lemma Draw_Some:
  assumes "\<And>x y. In (Pt x y) (clip (Rect dst) r (Rect src) sp) \<Longrightarrow>
             draw_pixel dst src (MinP r) sp x y \<noteq> None"
  shows "Draw dst r src sp =
           Some (dst\<lparr>Pix := (\<lambda>x y. if In (Pt x y) (clip (Rect dst) r (Rect src) sp)
                                      then the (draw_pixel dst src (MinP r) sp x y)
                                      else Pix dst x y)\<rparr>)"
proof (cases "Empty (clip (Rect dst) r (Rect src) sp)")
  case True
  then have "\<And>x y. \<not> In (Pt x y) (clip (Rect dst) r (Rect src) sp)" by (simp add: Empty_iff)
  then have "(\<lambda>x y. if In (Pt x y) (clip (Rect dst) r (Rect src) sp)
                     then the (draw_pixel dst src (MinP r) sp x y) else Pix dst x y) = Pix dst"
    by (intro ext) simp
  with True show ?thesis by (simp add: Draw_def)
next
  case False
  have "\<not> (\<exists>x \<in> {X (MinP (clip (Rect dst) r (Rect src) sp)) ..< X (MaxP (clip (Rect dst) r (Rect src) sp))}.
            \<exists>y \<in> {Y (MinP (clip (Rect dst) r (Rect src) sp)) ..< Y (MaxP (clip (Rect dst) r (Rect src) sp))}.
              draw_pixel dst src (MinP r) sp x y = None)"
    using assms by (auto simp: In_Pt)
  with False show ?thesis by (simp add: Draw_def Let_def)
qed

lemma Draw_None:
  assumes "In (Pt x y) (clip (Rect dst) r (Rect src) sp)" "draw_pixel dst src (MinP r) sp x y = None"
  shows "Draw dst r src sp = None"
proof -
  from assms(1) have "\<not> Empty (clip (Rect dst) r (Rect src) sp)" by (auto simp: Empty_iff)
  moreover from assms have "\<exists>x \<in> {X (MinP (clip (Rect dst) r (Rect src) sp)) ..< X (MaxP (clip (Rect dst) r (Rect src) sp))}.
            \<exists>y \<in> {Y (MinP (clip (Rect dst) r (Rect src) sp)) ..< Y (MaxP (clip (Rect dst) r (Rect src) sp))}.
              draw_pixel dst src (MinP r) sp x y = None"
    unfolding In_Pt by (intro bexI [of _ x] bexI [of _ y]) simp_all
  ultimately show ?thesis by (simp add: Draw_def Let_def)
qed

lemma byte257: "unat (b :: byte) * 257 \<le> 65535"
proof -
  have "unat b < 2 ^ LENGTH(8)" by (rule unsigned_less)
  then have "unat b < 256" by simp
  then show ?thesis by simp
qed

lemma over_channel_src: "s \<le> 65535 \<Longrightarrow> over_channel d s 0 = s"
  by (simp add: over_channel_def)

lemma over_channel_dst: "d \<le> 65535 \<Longrightarrow> over_channel d 0 65535 = d"
  by (simp add: over_channel_def)

lemma plain_cases:
  assumes "plain c"
  obtains (clear) "color_RGBA c = (0, 0, 0, 0)"
  | (solid) r g b where "color_RGBA c = (r, g, b, 65535)" "r \<le> 65535" "g \<le> 65535" "b \<le> 65535"
  using assms by (cases "color_RGBA c") (auto simp: plain_def)

lemma alpha_plain: "plain c \<Longrightarrow> alpha c = 0 \<or> alpha c = 65535"
  by (erule plain_cases) (simp_all add: alpha_def)

lemma over_plain:
  assumes "plain s" "plain d"
  shows "over (color_RGBA s) (color_RGBA d) = color_RGBA (if alpha s = 0 then d else s)"
proof -
  obtain dr dg db da where d: "color_RGBA d = (dr, dg, db, da)"
    "dr \<le> 65535" "dg \<le> 65535" "db \<le> 65535" "da \<le> 65535"
    using assms(2) by (cases rule: plain_cases) auto
  from assms(1) show ?thesis
  proof (cases rule: plain_cases)
    case clear
    then show ?thesis
      by (simp add: d over_def alpha_def over_channel_dst)
  next
    case (solid r g b)
    then show ?thesis
      by (simp add: d over_def alpha_def over_channel_src)
  qed
qed

declare Index_loop.simps(2) [simp del]

lemma Index_loop_step:
  "Index_loop (v # vs) i c ret best =
     (if dist4 c v < best then (if dist4 c v = 0 then i else Index_loop vs (i + 1) c i (dist4 c v))
      else Index_loop vs (i + 1) c ret best)"
  by (cases c; cases "color_RGBA v") (simp add: dist4_def Let_def Index_loop.simps(2))

lemma sqDiff_bound: "sqDiff x y < 2 ^ 30"
proof -
  have "((d * d) mod 2 ^ 32) div 4 < 2 ^ 30" for d :: nat
  proof -
    have "(d * d) mod 2 ^ 32 < 2 ^ 32" by simp
    then show ?thesis by simp
  qed
  then show ?thesis by (simp add: sqDiff_def Let_def)
qed

lemma sqDiff_self: "x < 2 ^ 32 \<Longrightarrow> sqDiff x x = 0"
  by (simp add: sqDiff_def)

lemma color_RGBA_bound:
  "color_RGBA c = (r, g, b, a) \<Longrightarrow> r < 2 ^ 32 \<and> g < 2 ^ 32 \<and> b < 2 ^ 32 \<and> a < 2 ^ 32"
proof (cases c)
  case (RGBA r' g' b' a')
  assume "color_RGBA c = (r, g, b, a)"
  with RGBA byte257 [of r'] byte257 [of g'] byte257 [of b'] byte257 [of a'] show ?thesis by auto
next
  case (OtherColor r' g' b' a')
  assume "color_RGBA c = (r, g, b, a)"
  with OtherColor show ?thesis by auto
qed

lemma dist4_self: "dist4 (color_RGBA v) v = 0"
proof -
  obtain r g b a where c: "color_RGBA v = (r, g, b, a)" by (cases "color_RGBA v") auto
  from color_RGBA_bound [OF c] show ?thesis by (simp add: dist4_def c sqDiff_self)
qed

lemma dist4_zero_alpha:
  assumes "dist4 c v = 0"
  shows "sqDiff (snd (snd (snd c))) (alpha v) = 0"
proof -
  obtain cr cg cb ca where c: "c = (cr, cg, cb, ca)" by (cases c) auto
  obtain r g b a where v: "color_RGBA v = (r, g, b, a)" by (cases "color_RGBA v") auto
  have "sqDiff cr r + sqDiff cg g + sqDiff cb b + sqDiff ca a < 2 ^ 32"
    using sqDiff_bound [of cr r] sqDiff_bound [of cg g] sqDiff_bound [of cb b] sqDiff_bound [of ca a]
    by simp
  with assms have "sqDiff cr r + sqDiff cg g + sqDiff cb b + sqDiff ca a = 0"
    by (simp add: dist4_def c v)
  then show ?thesis by (simp add: c v alpha_def)
qed

lemma Index_loop_exact:
  assumes "0 < best" "\<exists>v \<in> set vs. color_RGBA v = c"
  shows "\<exists>j < length vs. Index_loop vs i c ret best = i + j \<and> dist4 c (vs ! j) = 0"
  using assms
proof (induction vs arbitrary: i ret best)
  case Nil
  then show ?case by simp
next
  case (Cons v vs)
  show ?case
  proof (cases "dist4 c v = 0")
    case True
    with Cons.prems(1) have "Index_loop (v # vs) i c ret best = i + 0"
      by (simp add: Index_loop_step)
    with True show ?thesis by (intro exI [of _ 0]) simp
  next
    case False
    with dist4_self [of v] have "color_RGBA v \<noteq> c" by auto
    with Cons.prems(2) have ex: "\<exists>v \<in> set vs. color_RGBA v = c" by simp
    show ?thesis
    proof (cases "dist4 c v < best")
      case True
      from False have "0 < dist4 c v" by simp
      from Cons.IH [OF this ex, of "i + 1" i] obtain j where
        "j < length vs" "Index_loop vs (i + 1) c i (dist4 c v) = i + 1 + j" "dist4 c (vs ! j) = 0"
        by blast
      with True False show ?thesis
        by (intro exI [of _ "Suc j"]) (simp add: Index_loop_step)
    next
      case nlt: False
      from Cons.IH [OF Cons.prems(1) ex, of "i + 1" ret] obtain j where
        "j < length vs" "Index_loop vs (i + 1) c ret best = i + 1 + j" "dist4 c (vs ! j) = 0"
        by blast
      with nlt show ?thesis
        by (intro exI [of _ "Suc j"]) (simp add: Index_loop_step)
    qed
  qed
qed

lemma sqDiff_alpha:
  assumes "a = 0 \<or> a = 65535" "b = 0 \<or> b = 65535" "sqDiff a b = 0"
  shows "a = b"
  using assms by (auto simp: sqDiff_def)

lemma Palette_Index_plain:
  assumes P: "list_all plain P" and e: "e \<in> set P"
  shows "Palette_Index P (color_RGBA e) < length P \<and>
         alpha (P ! Palette_Index P (color_RGBA e)) = alpha e"
proof -
  from e have "\<exists>v \<in> set P. color_RGBA v = color_RGBA e" by blast
  from Index_loop_exact [OF _ this, of "2 ^ 32 - 1" 0 0] obtain j where
    j: "j < length P" "Palette_Index P (color_RGBA e) = j" "dist4 (color_RGBA e) (P ! j) = 0"
    by (auto simp: Palette_Index_def)
  from P j(1) have pj: "plain (P ! j)" by (simp add: list_all_length)
  from P e have pe: "plain e" by (simp add: list_all_iff)
  have "snd (snd (snd (color_RGBA e))) = alpha e"
    by (cases "color_RGBA e") (simp add: alpha_def)
  with dist4_zero_alpha [OF j(3)] have "sqDiff (alpha e) (alpha (P ! j)) = 0" by simp
  from sqDiff_alpha [OF alpha_plain [OF pe] alpha_plain [OF pj] this] j show ?thesis by simp
qed

lemma unat_byte_of_nat: "n < 256 \<Longrightarrow> unat (of_nat n :: byte) = n"
  by (simp add: unat_of_nat)

lemma At_indexed:
  assumes "indexed_by P img" "P \<noteq> []" "In (Pt x y) (Rect img)"
  shows "Paletted_At img x y = Some (P ! unat (Pix img x y))" "unat (Pix img x y) < length P"
  using assms by (simp_all add: indexed_by_def Paletted_At_def)

lemma total_indexed: "indexed_by P img \<Longrightarrow> P \<noteq> [] \<Longrightarrow> total_on (as_Image img)"
  by (simp add: total_on_def as_Image_def At_indexed)

lemma visible_indexed:
  assumes "indexed_by P img" "P \<noteq> []"
  shows "visible (as_Image img) x y \<longleftrightarrow>
           In (Pt x y) (Rect img) \<and> alpha (P ! unat (Pix img x y)) \<noteq> 0"
  using At_indexed(1) [OF assms] by (auto simp: visible_def as_Image_def)

lemma draw_pixel_plain:
  assumes P: "plain_palette P" and dst: "indexed_by P dst" and src: "indexed_by P src"
    and ind: "In (Pt x y) (Rect dst)"
    and ins: "In (Pt (X sp + (x - X orig)) (Y sp + (y - Y orig))) (Rect src)"
  shows "\<exists>k. draw_pixel dst src orig sp x y = Some k \<and> unat k < length P \<and>
           (alpha (P ! unat k) \<noteq> 0 \<longleftrightarrow>
              alpha (P ! unat (Pix src (X sp + (x - X orig)) (Y sp + (y - Y orig)))) \<noteq> 0 \<or>
              alpha (P ! unat (Pix dst x y)) \<noteq> 0)"
proof -
  from P have ne: "P \<noteq> []" and len: "length P \<le> 256" and pl: "list_all plain P"
    by (simp_all add: plain_palette_def)
  define s where "s = P ! unat (Pix src (X sp + (x - X orig)) (Y sp + (y - Y orig)))"
  define d where "d = P ! unat (Pix dst x y)"
  define e where "e = (if alpha s = 0 then d else s)"
  note S = At_indexed [OF src ne ins] and D = At_indexed [OF dst ne ind]
  have sP: "s \<in> set P" and dP: "d \<in> set P" using S(2) D(2) by (simp_all add: s_def d_def)
  then have eP: "e \<in> set P" by (simp add: e_def)
  from pl sP dP have "plain s" "plain d" by (simp_all add: list_all_iff)
  from over_plain [OF this] have ov: "over (color_RGBA s) (color_RGBA d) = color_RGBA e"
    by (simp add: e_def)
  note I = Palette_Index_plain [OF pl eP]
  have dp: "draw_pixel dst src orig sp x y = Some (of_nat (Palette_Index P (color_RGBA e)))"
    using S(1) D(1) dst ov by (simp add: draw_pixel_def s_def d_def indexed_by_def)
  have un: "unat (of_nat (Palette_Index P (color_RGBA e)) :: byte) = Palette_Index P (color_RGBA e)"
    using I len by (intro unat_byte_of_nat) simp
  have "alpha e \<noteq> 0 \<longleftrightarrow> alpha s \<noteq> 0 \<or> alpha d \<noteq> 0" by (simp add: e_def)
  with dp un I show ?thesis by (simp add: s_def d_def)
qed

lemma Draw_plain:
  assumes P: "plain_palette P" and dst: "indexed_by P dst" and src: "indexed_by P src"
  shows "\<exists>dst'. Draw dst r src sp = Some dst' \<and> indexed_by P dst' \<and> Rect dst' = Rect dst \<and>
           (\<forall>x y. visible (as_Image dst') x y \<longleftrightarrow>
              visible (as_Image dst) x y \<or>
              (In (Pt x y) r \<and> In (Pt x y) (Rect dst) \<and>
               visible (as_Image src) (X sp + (x - X (MinP r))) (Y sp + (y - Y (MinP r)))))"
proof -
  from P have ne: "P \<noteq> []" by (simp add: plain_palette_def)
  define r' where "r' = clip (Rect dst) r (Rect src) sp"
  define dst' where "dst' = dst\<lparr>Pix := (\<lambda>x y. if In (Pt x y) r'
                                      then the (draw_pixel dst src (MinP r) sp x y)
                                      else Pix dst x y)\<rparr>"
  have px: "\<exists>k. draw_pixel dst src (MinP r) sp x y = Some k \<and> unat k < length P \<and>
           (alpha (P ! unat k) \<noteq> 0 \<longleftrightarrow>
              alpha (P ! unat (Pix src (X sp + (x - X (MinP r))) (Y sp + (y - Y (MinP r))))) \<noteq> 0 \<or>
              alpha (P ! unat (Pix dst x y)) \<noteq> 0)"
    if "In (Pt x y) r'" for x y
    using that unfolding r'_def In_clip
    by (intro draw_pixel_plain [OF P dst src]) simp_all
  have d: "Draw dst r src sp = Some dst'"
    unfolding dst'_def r'_def
    by (rule Draw_Some) (use px in \<open>auto simp: r'_def\<close>)
  have rect: "Rect dst' = Rect dst" and pal: "Palette dst' = P"
    using dst by (simp_all add: dst'_def indexed_by_def)
  have idx: "indexed_by P dst'"
    unfolding indexed_by_def
  proof (intro conjI allI impI)
    show "Palette dst' = P" by (rule pal)
  next
    fix x y assume "In (Pt x y) (Rect dst')"
    then have i: "In (Pt x y) (Rect dst)" by (simp add: rect)
    show "unat (Pix dst' x y) < length P"
    proof (cases "In (Pt x y) r'")
      case True
      from px [OF this] True show ?thesis by (auto simp: dst'_def)
    next
      case False
      with At_indexed(2) [OF dst ne i] show ?thesis by (simp add: dst'_def)
    qed
  qed
  have vis: "visible (as_Image dst') x y \<longleftrightarrow>
              visible (as_Image dst) x y \<or>
              (In (Pt x y) r \<and> In (Pt x y) (Rect dst) \<and>
               visible (as_Image src) (X sp + (x - X (MinP r))) (Y sp + (y - Y (MinP r))))" for x y
  proof (cases "In (Pt x y) r'")
    case True
    from px [OF this] obtain k where k: "draw_pixel dst src (MinP r) sp x y = Some k"
      "alpha (P ! unat k) \<noteq> 0 \<longleftrightarrow>
         alpha (P ! unat (Pix src (X sp + (x - X (MinP r))) (Y sp + (y - Y (MinP r))))) \<noteq> 0 \<or>
         alpha (P ! unat (Pix dst x y)) \<noteq> 0" by blast
    from True k(1) have "Pix dst' x y = k" by (simp add: dst'_def)
    with True k(2) show ?thesis
      unfolding visible_indexed [OF idx ne] visible_indexed [OF dst ne] visible_indexed [OF src ne]
        rect r'_def In_clip
      by auto
  next
    case False
    then have "Pix dst' x y = Pix dst x y" by (simp add: dst'_def)
    with False show ?thesis
      unfolding visible_indexed [OF idx ne] visible_indexed [OF dst ne] visible_indexed [OF src ne]
        rect r'_def In_clip
      by auto
  qed
  from d idx rect vis show ?thesis by blast
qed

text \<open>
  Drawing over the untouched canvas with a keyed palette: the colour drawn is the source
  colour, \<open>Palette.Index\<close> finds an entry equal to it at or before the index of the
  source pixel, and so a visible source pixel gives a visible canvas pixel.
\<close>

lemma Index_loop_first:
  assumes "0 < best" "k < length vs" "color_RGBA (vs ! k) = c"
  shows "\<exists>j \<le> k. Index_loop vs i c ret best = i + j \<and> dist4 c (vs ! j) = 0"
  using assms
proof (induction vs arbitrary: i ret best k)
  case Nil
  then show ?case by simp
next
  case (Cons v vs)
  show ?case
  proof (cases "dist4 c v = 0")
    case True
    with Cons.prems(1) have "Index_loop (v # vs) i c ret best = i + 0"
      by (simp add: Index_loop_step)
    with True show ?thesis by (intro exI [of _ 0]) simp
  next
    case False
    with dist4_self [of v] have "color_RGBA v \<noteq> c" by auto
    with Cons.prems(3) obtain k' where k': "k = Suc k'" by (cases k) auto
    with Cons.prems have kk: "k' < length vs" "color_RGBA (vs ! k') = c" by simp_all
    show ?thesis
    proof (cases "dist4 c v < best")
      case True
      from False have "0 < dist4 c v" by simp
      from Cons.IH [OF this kk, of "i + 1" i] obtain j where
        "j \<le> k'" "Index_loop vs (i + 1) c i (dist4 c v) = i + 1 + j" "dist4 c (vs ! j) = 0"
        by blast
      with True False k' show ?thesis
        by (intro exI [of _ "Suc j"]) (simp add: Index_loop_step)
    next
      case nlt: False
      from Cons.IH [OF Cons.prems(1) kk, of "i + 1" ret] obtain j where
        "j \<le> k'" "Index_loop vs (i + 1) c ret best = i + 1 + j" "dist4 c (vs ! j) = 0"
        by blast
      with nlt k' show ?thesis
        by (intro exI [of _ "Suc j"]) (simp add: Index_loop_step)
    qed
  qed
qed

lemma over_channel_blank: "s \<le> 65535 \<Longrightarrow> over_channel 0 s a = s"
  by (simp add: over_channel_def)

lemma over_blank: "is_RGBA s \<Longrightarrow> over (color_RGBA s) (0, 0, 0, 0) = color_RGBA s"
proof (cases s)
  case (RGBA r g b a)
  with byte257 [of r] byte257 [of g] byte257 [of b] byte257 [of a] show ?thesis
    by (simp add: over_def Let_def over_channel_blank)
next
  case (OtherColor r g b a)
  assume "is_RGBA s"
  with OtherColor show ?thesis by simp
qed

lemma sqDiff_visible:
  assumes "2 \<le> a" "a \<le> 65535"
  shows "sqDiff a 0 \<noteq> 0"
proof -
  from assms have "a * a \<le> 65535 * 65535" by (intro mult_mono) simp_all
  then have lt: "a * a < 2 ^ 32" by simp
  from assms have "2 * 2 \<le> a * a" by (intro mult_mono) simp_all
  then have "4 \<le> a * a" by simp
  then have "1 \<le> (a * a) div 4" by simp
  moreover from assms have "(a + 2 ^ 32) mod 2 ^ 32 = a" by simp
  ultimately show ?thesis using lt by (simp add: sqDiff_def Let_def)
qed

lemma alpha_RGBA_range:
  assumes "is_RGBA c" "alpha c \<noteq> 0"
  shows "2 \<le> alpha c \<and> alpha c \<le> 65535"
proof (cases c)
  case (RGBA r g b a)
  with assms(2) byte257 [of a] show ?thesis by (auto simp: alpha_def)
next
  case (OtherColor r g b a)
  with assms(1) show ?thesis by simp
qed

lemma keyed_index:
  assumes P: "keyed P" and k: "k < length P" "alpha (P ! k) \<noteq> 0"
  shows "Palette_Index P (over (color_RGBA (P ! k)) (color_RGBA (P ! 0))) \<le> k \<and>
         alpha (P ! Palette_Index P (over (color_RGBA (P ! k)) (color_RGBA (P ! 0)))) \<noteq> 0"
proof -
  from P k(1) have rg: "is_RGBA (P ! k)" and z: "color_RGBA (P ! 0) = (0, 0, 0, 0)"
    by (simp_all add: keyed_def list_all_length)
  from over_blank [OF rg] z
  have ov: "over (color_RGBA (P ! k)) (color_RGBA (P ! 0)) = color_RGBA (P ! k)" by simp
  from Index_loop_first [of "2 ^ 32 - 1" k P "color_RGBA (P ! k)" 0 0] k(1) obtain j where
    j: "j \<le> k" "Palette_Index P (color_RGBA (P ! k)) = j" "dist4 (color_RGBA (P ! k)) (P ! j) = 0"
    by (auto simp: Palette_Index_def)
  have "snd (snd (snd (color_RGBA (P ! k)))) = alpha (P ! k)"
    by (cases "color_RGBA (P ! k)") (simp add: alpha_def)
  with dist4_zero_alpha [OF j(3)] have "sqDiff (alpha (P ! k)) (alpha (P ! j)) = 0" by simp
  moreover from alpha_RGBA_range [OF rg k(2)] have "sqDiff (alpha (P ! k)) 0 \<noteq> 0"
    by (intro sqDiff_visible) simp_all
  ultimately have "alpha (P ! j) \<noteq> 0" by (cases "alpha (P ! j) = 0") simp_all
  with j ov show ?thesis by simp
qed

lemma Draw_SomeD:
  assumes "Draw dst r src sp = Some dst'"
  shows "Rect dst' = Rect dst" "Palette dst' = Palette dst"
    "\<And>x y. \<not> In (Pt x y) (clip (Rect dst) r (Rect src) sp) \<Longrightarrow> Pix dst' x y = Pix dst x y"
    "\<And>x y. In (Pt x y) (clip (Rect dst) r (Rect src) sp) \<Longrightarrow>
       draw_pixel dst src (MinP r) sp x y = Some (Pix dst' x y)"
proof -
  define r' where "r' = clip (Rect dst) r (Rect src) sp"
  show "Rect dst' = Rect dst" "Palette dst' = Palette dst"
    using assms by (auto simp: Draw_def Let_def split: if_splits)
  show "Pix dst' x y = Pix dst x y" if "\<not> In (Pt x y) (clip (Rect dst) r (Rect src) sp)" for x y
    using assms that by (auto simp: Draw_def Let_def split: if_splits)
  show "draw_pixel dst src (MinP r) sp x y = Some (Pix dst' x y)"
    if i: "In (Pt x y) (clip (Rect dst) r (Rect src) sp)" for x y
  proof (cases "draw_pixel dst src (MinP r) sp x y")
    case None
    from Draw_None [OF i None] assms show ?thesis by simp
  next
    case (Some k)
    from i have ne: "\<not> Empty (clip (Rect dst) r (Rect src) sp)" by (auto simp: Empty_iff)
    with assms have "dst' = dst\<lparr>Pix := (\<lambda>x y. if In (Pt x y) (clip (Rect dst) r (Rect src) sp)
                                      then the (draw_pixel dst src (MinP r) sp x y)
                                      else Pix dst x y)\<rparr>"
      by (simp add: Draw_def Let_def split: if_splits)
    then have "Pix dst' x y = the (draw_pixel dst src (MinP r) sp x y)" using i by simp
    with Some show ?thesis by simp
  qed
qed

lemma ink_nonzero: "keyed P \<Longrightarrow> ink P c x y \<Longrightarrow> Pix c x y \<noteq> 0"
  by (auto simp: keyed_def ink_def visible_def as_Image_def Paletted_At_def alpha_def
      split: if_splits)

lemma unat_byte: "unat (b :: byte) < 256"
proof -
  have "unat b < 2 ^ LENGTH(8)" by (rule unsigned_less)
  then show ?thesis by simp
qed

lemma ink_iff:
  "P \<noteq> [] \<Longrightarrow> ink P c x y \<longleftrightarrow>
     In (Pt x y) (Rect c) \<and> unat (Pix c x y) < length P \<and> alpha (P ! unat (Pix c x y)) \<noteq> 0"
  by (auto simp: ink_def visible_def as_Image_def Paletted_At_def)


section \<open>Properties of the packing loop\<close>

lemma Rectangle_eqI:
  fixes a b :: Rectangle
  assumes "X (MinP a) = X (MinP b)" "Y (MinP a) = Y (MinP b)"
    "X (MaxP a) = X (MaxP b)" "Y (MaxP a) = Y (MaxP b)"
  shows "a = b"
proof -
  from assms have "MinP a = MinP b" "MaxP a = MaxP b" by simp_all
  then show ?thesis by simp
qed

lemma FindBbox_rect:
  assumes tot: "total_on img" and ne: "\<not> Empty R"
    and vis: "\<And>x y. visible img x y \<longleftrightarrow> In (Pt x y) R"
  shows "FindBbox img = Some R"
proof -
  from tot obtain r where r: "FindBbox img = Some r" using FindBbox_total by blast
  from ne have lo: "visible img (X (MinP R)) (Y (MinP R))"
    and hi: "visible img (X (MaxP R) - 1) (Y (MaxP R) - 1)"
    by (simp_all add: vis In_Pt Empty_def)
  from FindBbox_visible [OF r lo] obtain ya yb xa xb where
    e: "visible img (X (MinP r)) ya" "visible img (X (MaxP r) - 1) yb"
       "visible img xa (Y (MinP r))" "visible img xb (Y (MaxP r) - 1)"
    and l: "X (MinP r) \<le> X (MinP R)" "Y (MinP r) \<le> Y (MinP R)" by blast
  from FindBbox_visible [OF r hi] have h: "X (MaxP R) \<le> X (MaxP r)" "Y (MaxP R) \<le> Y (MaxP r)"
    by simp_all
  from e have "X (MinP R) \<le> X (MinP r)" "X (MaxP r) \<le> X (MaxP R)"
    "Y (MinP R) \<le> Y (MinP r)" "Y (MaxP r) \<le> Y (MaxP R)"
    by (simp_all add: vis In_Pt)
  with l h have "r = R" by (intro Rectangle_eqI) simp_all
  with r show ?thesis by simp
qed

lemma FindBbox_nonempty:
  assumes fb: "FindBbox img = Some r" and ne: "\<not> Empty r"
  shows "\<exists>x y. visible img x y"
proof (rule ccontr)
  assume "\<not> (\<exists>x y. visible img x y)"
  then have none: "\<And>x y. \<not> visible img x y" by blast
  show False
  proof (cases "Empty (Bounds img)")
    case False
    from FindBbox_invisible [OF fb none False] ne show False by (simp add: ZR_def Empty_def)
  next
    case True
    from fb obtain l t rt b where
      sl: "scan_up (col_alpha img) (X (MinP (Bounds img))) (X (MaxP (Bounds img))) = Some l" and
      st: "scan_up (row_alpha img) (Y (MinP (Bounds img))) (Y (MaxP (Bounds img))) = Some t" and
      sr: "scan_down (col_alpha img) (X (MaxP (Bounds img)) - 1) (X (MinP (Bounds img))) = Some rt" and
      sb: "scan_down (row_alpha img) (Y (MaxP (Bounds img)) - 1) (Y (MinP (Bounds img))) = Some b" and
      r: "r = (if rt + 1 < l \<or> b + 1 < t then image_Rect 0 0 0 0
               else \<lparr>MinP = Pt l t, MaxP = Pt (rt + 1) (b + 1)\<rparr>)"
      by (rule FindBbox_scans)
    note L = scan_up_spec [OF sl] and T = scan_up_spec [OF st]
      and R = scan_down_spec [OF sr] and B = scan_down_spec [OF sb]
    from True have "X (MaxP (Bounds img)) \<le> X (MinP (Bounds img)) \<or>
        Y (MaxP (Bounds img)) \<le> Y (MinP (Bounds img))" by (simp add: Empty_def)
    moreover from L R have "X (MaxP (Bounds img)) \<le> X (MinP (Bounds img)) \<Longrightarrow> rt + 1 \<le> l"
      by simp
    moreover from T B have "Y (MaxP (Bounds img)) \<le> Y (MinP (Bounds img)) \<Longrightarrow> b + 1 \<le> t"
      by simp
    ultimately have "rt + 1 \<le> l \<or> b + 1 \<le> t" by blast
    moreover have "Empty (image_Rect 0 0 0 0)" by (simp add: Empty_def image_Rect_def)
    ultimately have "Empty r" unfolding r by (auto simp: Empty_def)
    with ne show False by simp
  qed
qed

lemma FindBbox_within:
  assumes fb: "FindBbox img = Some r" and ne: "\<not> Empty r"
  shows "X (MinP (Bounds img)) \<le> X (MinP r) \<and> X (MaxP r) \<le> X (MaxP (Bounds img)) \<and>
         Y (MinP (Bounds img)) \<le> Y (MinP r) \<and> Y (MaxP r) \<le> Y (MaxP (Bounds img)) \<and>
         (\<exists>x. visible img x (Y (MaxP r) - 1))"
proof -
  from FindBbox_nonempty [OF fb ne] obtain x y where "visible img x y" by blast
  from FindBbox_visible [OF fb this] obtain ya yb xa xb where
    "visible img (X (MinP r)) ya" "visible img (X (MaxP r) - 1) yb"
    "visible img xa (Y (MinP r))" "visible img xb (Y (MaxP r) - 1)" by blast
  then show ?thesis by (auto simp: visible_def In_Pt)
qed

lemma FindBbox_canvas_bottom:
  assumes fb: "FindBbox img = Some r" and b: "\<not> Empty (Bounds img)"
  shows "Y (MaxP r) \<le> max 0 (Y (MaxP (Bounds img)))"
proof (cases "\<exists>x y. visible img x y")
  case True
  then obtain x y where "visible img x y" by blast
  from FindBbox_visible [OF fb this] obtain xb where "visible img xb (Y (MaxP r) - 1)" by blast
  then have "Y (MaxP r) - 1 < Y (MaxP (Bounds img))" by (simp add: visible_def In_Pt)
  then show ?thesis by simp
next
  case False
  with FindBbox_invisible [OF fb _ b] have "r = ZR" by blast
  then show ?thesis by (simp add: ZR_def)
qed

lemma plain_palette_ne: "plain_palette P \<Longrightarrow> P \<noteq> []"
  by (simp add: plain_palette_def)

lemma wrap_cases:
  assumes "FindBbox (as_Image canvas) = Some cb"
  shows "wrap s canvas trim =
           Some (if left s + Dx trim > Dx (Rect canvas) then (0, Y (MaxP cb) + 1)
                 else (left s, top' s))"
  using assms by (simp add: wrap_def)

lemma place_plain:
  assumes P: "plain_palette P" and f: "indexed_by P (MakeImage f)"
    and c: "canvas_ok P (spriteImg s)"
  shows "\<exists>trim cb l t c'.
    FindBbox (as_Image (MakeImage f)) = Some trim \<and>
    FindBbox (as_Image ((spriteImg s)\<lparr>Palette := P\<rparr>)) = Some cb \<and>
    (l, t) = (if left s + Dx trim > 1024 then (0, Y (MaxP cb) + 1) else (left s, top' s)) \<and>
    place s f = Some \<lparr>left = l + Dx trim + 1, top' = t,
        infos = infos s @ [\<lparr>BBox = \<lparr>MinP = Pt l t, MaxP = Pt (l + Dx trim) (t + Dy trim)\<rparr>,
                            Origin = Pt (quo (Dx (Rect (MakeImage f))) 2 - X (MinP trim))
                                        (quo (Dy (Rect (MakeImage f))) 2 - Y (MinP trim)),
                            Delay = frame_Delay f, Action = frame_Action f\<rparr>],
        fullPalette = frame_Palette f, spriteImg = c'\<rparr> \<and>
    canvas_ok P c' \<and> Palette c' = P \<and>
    (\<forall>x y. ink P c' x y \<longleftrightarrow> ink P (spriteImg s) x y \<or>
        (l \<le> x \<and> x < l + Dx trim \<and> t \<le> y \<and> y < t + Dy trim \<and>
         In (Pt x y) (image_Rect 0 0 1024 1024) \<and>
         visible (as_Image (MakeImage f)) (X (MinP trim) + (x - l)) (Y (MinP trim) + (y - t))))"
proof -
  note ne = plain_palette_ne [OF P]
  define canvas where "canvas = (spriteImg s)\<lparr>Palette := P\<rparr>"
  from c have ci: "indexed_by P canvas" and cr: "Rect canvas = image_Rect 0 0 1024 1024"
    by (simp_all add: canvas_ok_def canvas_def)
  from f have pf: "Palette (MakeImage f) = P" by (simp add: indexed_by_def)
  obtain trim where trim: "FindBbox (as_Image (MakeImage f)) = Some trim"
    using FindBbox_total [OF total_indexed [OF f ne]] by blast
  obtain cb where cb: "FindBbox (as_Image canvas) = Some cb"
    using FindBbox_total [OF total_indexed [OF ci ne]] by blast
  define l where "l = (if left s + Dx trim > 1024 then 0 else left s)"
  define t where "t = (if left s + Dx trim > 1024 then Y (MaxP cb) + 1 else top' s)"
  have w: "wrap s canvas trim = Some (l, t)"
    by (simp add: wrap_cases [OF cb] cr l_def t_def Dx_def image_Rect_def)
  define B where "B = \<lparr>MinP = Pt l t, MaxP = Pt (l + Dx trim) (t + Dy trim)\<rparr>"
  from Draw_plain [OF P ci f, of B "MinP trim"] obtain c' where
    d: "Draw canvas B (MakeImage f) (MinP trim) = Some c'" and
    i: "indexed_by P c'" and r: "Rect c' = Rect canvas" and
    v: "\<And>x y. visible (as_Image c') x y \<longleftrightarrow>
              visible (as_Image canvas) x y \<or>
              (In (Pt x y) B \<and> In (Pt x y) (Rect canvas) \<and>
               visible (as_Image (MakeImage f)) (X (MinP trim) + (x - X (MinP B)))
                  (Y (MinP trim) + (y - Y (MinP B))))"
    by blast
  from i have pc: "Palette c' = P" by (simp add: indexed_by_def)
  then have same: "c'\<lparr>Palette := P\<rparr> = c'" by (cases c') simp
  have 1: "(l, t) = (if left s + Dx trim > 1024 then (0, Y (MaxP cb) + 1) else (left s, top' s))"
    by (simp add: l_def t_def)
  have 2: "place s f = Some \<lparr>left = l + Dx trim + 1, top' = t,
        infos = infos s @ [\<lparr>BBox = B,
                            Origin = Pt (quo (Dx (Rect (MakeImage f))) 2 - X (MinP trim))
                                        (quo (Dy (Rect (MakeImage f))) 2 - Y (MinP trim)),
                            Delay = frame_Delay f, Action = frame_Action f\<rparr>],
        fullPalette = frame_Palette f, spriteImg = c'\<rparr>"
    using trim w d by (simp add: place_def Let_def pf canvas_def B_def)
  have 3: "canvas_ok P c'" using i r cr by (simp add: canvas_ok_def same)
  have 4: "ink P c' x y \<longleftrightarrow> ink P (spriteImg s) x y \<or>
        (l \<le> x \<and> x < l + Dx trim \<and> t \<le> y \<and> y < t + Dy trim \<and>
         In (Pt x y) (image_Rect 0 0 1024 1024) \<and>
         visible (as_Image (MakeImage f)) (X (MinP trim) + (x - l)) (Y (MinP trim) + (y - t)))"
    for x y
    using v [of x y] by (auto simp: ink_def same canvas_def [symmetric] cr B_def In_Pt)
  from trim cb [unfolded canvas_def] 1 2 [unfolded B_def] 3 pc 4 show ?thesis
    by (intro exI conjI allI)
qed

lemma FindBbox_size:
  assumes "FindBbox img = Some r"
  shows "0 \<le> Dx r \<and> 0 \<le> Dy r"
proof -
  from assms obtain l t rt b where
    "r = (if rt + 1 < l \<or> b + 1 < t then image_Rect 0 0 0 0
          else \<lparr>MinP = Pt l t, MaxP = Pt (rt + 1) (b + 1)\<rparr>)"
    by (rule FindBbox_scans)
  then show ?thesis by (auto simp: Dx_def Dy_def image_Rect_def)
qed

lemma FindBbox_bottom_nonneg:
  assumes fb: "FindBbox img = Some r" and b: "\<not> Empty (Bounds img)" "0 \<le> Y (MinP (Bounds img))"
  shows "0 \<le> Y (MaxP r)"
proof (cases "\<exists>x y. visible img x y")
  case True
  then obtain x y where "visible img x y" by blast
  from FindBbox_visible [OF fb this] obtain xb where "visible img xb (Y (MaxP r) - 1)" by blast
  then have "Y (MinP (Bounds img)) \<le> Y (MaxP r) - 1" by (simp add: visible_def In_Pt)
  with b show ?thesis by simp
next
  case False
  with FindBbox_invisible [OF fb _ b(1)] have "r = ZR" by blast
  then show ?thesis by (simp add: ZR_def)
qed

lemma disjoint_snoc:
  assumes "disjoint is" "\<And>old. old \<in> set is \<Longrightarrow> \<not> Overlaps (BBox old) (BBox new)"
  shows "disjoint (is @ [new])"
  unfolding disjoint_def
proof (intro allI impI)
  fix i j assume ij: "i < j \<and> j < length (is @ [new])"
  show "\<not> Overlaps (BBox ((is @ [new]) ! i)) (BBox ((is @ [new]) ! j))"
  proof (cases "j < length is")
    case True
    with ij assms(1) show ?thesis by (simp add: disjoint_def nth_append)
  next
    case False
    with ij have j: "j = length is" and i: "i < length is" by simp_all
    from i have "is ! i \<in> set is" by simp
    from assms(2) [OF this] i j show ?thesis by (simp add: nth_append)
  qed
qed

lemma place_SomeE:
  assumes "place s f = Some s'"
  obtains trim l t c' where
    "FindBbox (as_Image (MakeImage f)) = Some trim"
    "wrap s ((spriteImg s)\<lparr>Palette := Palette (MakeImage f)\<rparr>) trim = Some (l, t)"
    "Draw ((spriteImg s)\<lparr>Palette := Palette (MakeImage f)\<rparr>)
       \<lparr>MinP = Pt l t, MaxP = Pt (l + Dx trim) (t + Dy trim)\<rparr> (MakeImage f) (MinP trim) = Some c'"
    "s' = \<lparr>left = l + Dx trim + 1, top' = t,
        infos = infos s @ [\<lparr>BBox = \<lparr>MinP = Pt l t, MaxP = Pt (l + Dx trim) (t + Dy trim)\<rparr>,
                            Origin = Pt (quo (Dx (Rect (MakeImage f))) 2 - X (MinP trim))
                                        (quo (Dy (Rect (MakeImage f))) 2 - Y (MinP trim)),
                            Delay = frame_Delay f, Action = frame_Action f\<rparr>],
        fullPalette = frame_Palette f, spriteImg = c'\<rparr>"
  using assms by (auto simp: place_def Let_def split: option.splits)

lemma row_inv_place:
  assumes P: "keyed P" and f: "Palette (MakeImage f) = P"
    and inv: "row_inv P s" and pl: "place s f = Some s'"
    and fit: "fits (last (infos s'))"
  shows "row_inv P s'"
proof -
  from P have ne: "P \<noteq> []" by (simp add: keyed_def)
  from inv have cr: "Rect (spriteImg s) = image_Rect 0 0 1024 1024"
    and l0: "0 \<le> left s" and t0: "0 \<le> top' s"
    and blank: "\<And>x y. Pix (spriteImg s) x y \<noteq> 0 \<Longrightarrow> \<exists>info \<in> set (infos s). In (Pt x y) (BBox info)"
    and old: "\<And>info. info \<in> set (infos s) \<Longrightarrow> \<not> Empty (BBox info) \<Longrightarrow> settled P s info"
    and dis: "disjoint (infos s)"
    by (simp_all add: row_inv_def)
  from pl obtain trim l t c' where
    trim: "FindBbox (as_Image (MakeImage f)) = Some trim" and
    w: "wrap s ((spriteImg s)\<lparr>Palette := Palette (MakeImage f)\<rparr>) trim = Some (l, t)" and
    d: "Draw ((spriteImg s)\<lparr>Palette := Palette (MakeImage f)\<rparr>)
       \<lparr>MinP = Pt l t, MaxP = Pt (l + Dx trim) (t + Dy trim)\<rparr> (MakeImage f) (MinP trim) = Some c'" and
    s'0: "s' = \<lparr>left = l + Dx trim + 1, top' = t,
        infos = infos s @ [\<lparr>BBox = \<lparr>MinP = Pt l t, MaxP = Pt (l + Dx trim) (t + Dy trim)\<rparr>,
                            Origin = Pt (quo (Dx (Rect (MakeImage f))) 2 - X (MinP trim))
                                        (quo (Dy (Rect (MakeImage f))) 2 - Y (MinP trim)),
                            Delay = frame_Delay f, Action = frame_Action f\<rparr>],
        fullPalette = frame_Palette f, spriteImg = c'\<rparr>"
    by (rule place_SomeE)
  define canvas where "canvas = (spriteImg s)\<lparr>Palette := P\<rparr>"
  define B where "B = \<lparr>MinP = Pt l t, MaxP = Pt (l + Dx trim) (t + Dy trim)\<rparr>"
  define new where "new = \<lparr>BBox = B,
                            Origin = Pt (quo (Dx (Rect (MakeImage f))) 2 - X (MinP trim))
                                        (quo (Dy (Rect (MakeImage f))) 2 - Y (MinP trim)),
                            Delay = frame_Delay f, Action = frame_Action f\<rparr>"
  from w have w': "wrap s canvas trim = Some (l, t)" by (simp add: f canvas_def)
  from d have d': "Draw canvas B (MakeImage f) (MinP trim) = Some c'"
    by (simp add: f canvas_def B_def)
  from s'0 have s': "s' = \<lparr>left = l + Dx trim + 1, top' = t, infos = infos s @ [new],
        fullPalette = frame_Palette f, spriteImg = c'\<rparr>"
    by (simp add: new_def B_def)
  have rc: "Rect canvas = image_Rect 0 0 1024 1024" and pc: "Palette canvas = P"
    and xc: "\<And>x y. Pix canvas x y = Pix (spriteImg s) x y"
    by (simp_all add: canvas_def cr)
  have dc: "Dx (Rect canvas) = 1024" by (simp add: rc Dx_def image_Rect_def)
  have inkc: "\<And>x y. ink P (spriteImg s) x y \<longleftrightarrow> visible (as_Image canvas) x y"
    by (simp add: ink_def canvas_def)
  note sz = FindBbox_size [OF trim]
  have cbnd: "\<not> Empty (Bounds (as_Image canvas))" "0 \<le> Y (MinP (Bounds (as_Image canvas)))"
    by (simp_all add: as_Image_def rc image_Rect_def Empty_def)
  \<comment> \<open>the cursor used for the new rectangle\<close>
  have cur: "(left s + Dx trim > 1024 \<and> l = 0 \<and>
               (\<exists>cb. FindBbox (as_Image canvas) = Some cb \<and> t = Y (MaxP cb) + 1)) \<or>
             (\<not> left s + Dx trim > 1024 \<and> l = left s \<and> t = top' s)"
    using w' by (auto simp: wrap_def dc split: if_splits option.splits)
  have l: "0 \<le> l" and t: "0 \<le> t"
  proof -
    from cur show "0 \<le> l" using l0 by auto
    from cur show "0 \<le> t"
    proof
      assume "left s + Dx trim > 1024 \<and> l = 0 \<and>
               (\<exists>cb. FindBbox (as_Image canvas) = Some cb \<and> t = Y (MaxP cb) + 1)"
      then obtain cb where cb: "FindBbox (as_Image canvas) = Some cb" "t = Y (MaxP cb) + 1"
        by blast
      from FindBbox_bottom_nonneg [OF cb(1) cbnd] cb(2) show ?thesis by simp
    next
      assume "\<not> left s + Dx trim > 1024 \<and> l = left s \<and> t = top' s"
      with t0 show ?thesis by simp
    qed
  qed
  from fit have fitB: "l + Dx trim \<le> 1024" "t + Dy trim \<le> 1024"
    by (simp_all add: s' new_def B_def fits_def)
  \<comment> \<open>every earlier rectangle lies above or to the left of the cursor used for the new one\<close>
  have before: "Y (MaxP (BBox info)) \<le> t \<or> (Y (MinP (BBox info)) = t \<and> X (MaxP (BBox info)) \<le> l)"
    if "info \<in> set (infos s)" "\<not> Empty (BBox info)" for info
    using cur
  proof
    assume "left s + Dx trim > 1024 \<and> l = 0 \<and>
               (\<exists>cb. FindBbox (as_Image canvas) = Some cb \<and> t = Y (MaxP cb) + 1)"
    then obtain cb where cb: "FindBbox (as_Image canvas) = Some cb" "t = Y (MaxP cb) + 1"
      by blast
    from old [OF that] obtain x y where
      "ink P (spriteImg s) x y" "Y (MaxP (BBox info)) \<le> y + 1" by (auto simp: settled_def)
    with FindBbox_visible [OF cb(1), of x y] have "Y (MaxP (BBox info)) \<le> Y (MaxP cb)"
      by (simp add: inkc)
    with cb(2) show ?thesis by simp
  next
    assume "\<not> left s + Dx trim > 1024 \<and> l = left s \<and> t = top' s"
    with old [OF that] show ?thesis by (simp add: settled_def)
  qed
  have apart: "\<not> Overlaps (BBox info) (BBox new)" if "info \<in> set (infos s)" for info
  proof
    assume ov: "Overlaps (BBox info) (BBox new)"
    then have "\<not> Empty (BBox info)" by (simp add: Overlaps_def)
    from before [OF that this] ov show False
      by (auto simp: Overlaps_def new_def B_def)
  qed
  \<comment> \<open>so the canvas is untouched where the new rectangle goes\<close>
  have fresh: "Pix (spriteImg s) x y = 0" if "In (Pt x y) B" for x y
  proof (rule ccontr)
    assume "Pix (spriteImg s) x y \<noteq> 0"
    from blank [OF this] obtain info where
      i: "info \<in> set (infos s)" "In (Pt x y) (BBox info)" by blast
    from i(2) that have "Overlaps (BBox info) (BBox new)"
      by (auto simp: Overlaps_def Empty_def In_Pt new_def)
    with apart [OF i(1)] show False by simp
  qed
  note D = Draw_SomeD [OF d']
  have inB: "In (Pt x y) B" if "In (Pt x y) (clip (Rect canvas) B (Rect (MakeImage f)) (MinP trim))"
    for x y using that by (simp add: In_clip)
  have rc': "Rect c' = image_Rect 0 0 1024 1024" using D(1) rc by simp
  have blank': "\<exists>info \<in> set (infos s'). In (Pt x y) (BBox info)" if nz: "Pix c' x y \<noteq> 0" for x y
  proof (cases "In (Pt x y) (clip (Rect canvas) B (Rect (MakeImage f)) (MinP trim))")
    case True
    from inB [OF this] show ?thesis by (simp add: s' new_def)
  next
    case False
    from D(3) [OF this] nz have "Pix (spriteImg s) x y \<noteq> 0" by (simp add: xc)
    from blank [OF this] show ?thesis by (auto simp: s')
  qed
  have keep: "ink P c' x y" if i: "ink P (spriteImg s) x y" for x y
  proof -
    from ink_nonzero [OF P i] fresh [of x y] have "\<not> In (Pt x y) B" by auto
    with inB have "\<not> In (Pt x y) (clip (Rect canvas) B (Rect (MakeImage f)) (MinP trim))"
      by blast
    from D(3) [OF this] have "Pix c' x y = Pix (spriteImg s) x y" by (simp add: xc)
    with i show ?thesis by (simp add: ink_iff [OF ne] D(1) rc cr)
  qed
  have sold: "settled P s' info" if "info \<in> set (infos s)" "\<not> Empty (BBox info)" for info
  proof -
    from old [OF that] obtain x y where
      "ink P (spriteImg s) x y" "Y (MaxP (BBox info)) \<le> y + 1" by (auto simp: settled_def)
    then have "\<exists>x y. ink P c' x y \<and> Y (MaxP (BBox info)) \<le> y + 1" using keep by blast
    moreover from before [OF that] sz
    have "Y (MaxP (BBox info)) \<le> t \<or>
          (Y (MinP (BBox info)) = t \<and> X (MaxP (BBox info)) \<le> l + Dx trim + 1)" by auto
    ultimately show ?thesis by (simp add: settled_def s')
  qed
  have snew: "settled P s' new" if ne': "\<not> Empty (BBox new)"
  proof -
    from ne' have pos: "0 < Dx trim" "0 < Dy trim" by (simp_all add: new_def B_def Empty_def)
    then have tne: "\<not> Empty trim" by (simp add: Empty_def Dx_def Dy_def)
    from FindBbox_within [OF trim tne] obtain x0 where
      x0: "visible (as_Image (MakeImage f)) x0 (Y (MaxP trim) - 1)" by blast
    from FindBbox_visible [OF trim x0] have xin: "X (MinP trim) \<le> x0" "x0 < X (MaxP trim)"
      by simp_all
    define x where "x = l + (x0 - X (MinP trim))"
    define y where "y = t + Dy trim - 1"
    have src: "X (MinP trim) + (x - X (MinP B)) = x0" "Y (MinP trim) + (y - Y (MinP B)) = Y (MaxP trim) - 1"
      by (simp_all add: x_def y_def Dy_def B_def)
    have xyB: "In (Pt x y) B"
      using xin pos by (simp add: x_def y_def Dx_def In_Pt B_def)
    have xyC: "In (Pt x y) (Rect canvas)"
      using xin pos l t fitB by (simp add: x_def y_def Dx_def In_Pt rc image_Rect_def)
    from x0 have x0in: "In (Pt x0 (Y (MaxP trim) - 1)) (Rect (MakeImage f))"
      by (simp add: visible_def as_Image_def)
    with xyB xyC src have cl: "In (Pt x y) (clip (Rect canvas) B (Rect (MakeImage f)) (MinP trim))"
      by (simp add: In_clip)
    from x0 x0in ne f obtain k where
      k: "unat (Pix (MakeImage f) x0 (Y (MaxP trim) - 1)) = k" "k < length P" "alpha (P ! k) \<noteq> 0"
        "Paletted_At (MakeImage f) x0 (Y (MaxP trim) - 1) = Some (P ! k)"
      by (auto simp: visible_def as_Image_def Paletted_At_def split: if_splits)
    from fresh [OF xyB] have dst: "Paletted_At canvas x y = Some (P ! 0)"
      using xyC ne by (simp add: Paletted_At_def pc xc)
    define j where "j = Palette_Index P (over (color_RGBA (P ! k)) (color_RGBA (P ! 0)))"
    from keyed_index [OF P k(2,3)] have j: "j \<le> k" "alpha (P ! j) \<noteq> 0" by (simp_all add: j_def)
    have "k < 256" using k(1) unat_byte [of "Pix (MakeImage f) x0 (Y (MaxP trim) - 1)"]
      by simp
    with j(1) have j256: "j < 256" by simp
    from D(4) [OF cl] have "Some (Pix c' x y) = draw_pixel canvas (MakeImage f) (MinP B) (MinP trim) x y"
      by simp
    also have "\<dots> = Some (of_nat j)"
      using k(4) dst by (simp add: draw_pixel_def src pc j_def)
    finally have "Pix c' x y = of_nat j" by simp
    with j256 have "unat (Pix c' x y) = j" by (simp add: unat_byte_of_nat)
    with j k(2) xyC have "ink P c' x y" by (simp add: ink_iff [OF ne] D(1))
    moreover have "Y (MaxP (BBox new)) \<le> y + 1" by (simp add: new_def B_def y_def)
    ultimately show ?thesis using sz by (auto simp: settled_def s' new_def B_def)
  qed
  have "disjoint (infos s')" unfolding s' using dis apart by (simp add: disjoint_snoc)
  moreover have "\<forall>info \<in> set (infos s'). \<not> Empty (BBox info) \<longrightarrow> settled P s' info"
    using sold snew by (auto simp: s')
  moreover have "0 \<le> left s'" "0 \<le> top' s'" using l t sz by (simp_all add: s')
  moreover have "Rect (spriteImg s') = image_Rect 0 0 1024 1024" using rc' by (simp add: s')
  moreover have "\<forall>x y. Pix (spriteImg s') x y \<noteq> 0 \<longrightarrow> (\<exists>info \<in> set (infos s'). In (Pt x y) (BBox info))"
    using blank' by (simp add: s')
  ultimately show ?thesis by (simp add: row_inv_def)
qed

lemma place_info:
  assumes "place s f = Some s'"
  shows "\<exists>info. infos s' = infos s @ [info] \<and> trimmed f info \<and>
           Delay info = frame_Delay f \<and> Action info = frame_Action f \<and>
           fullPalette s' = frame_Palette f"
  using assms
  by (auto simp: place_def Let_def trimmed_def Dx_def Dy_def split: option.splits prod.splits)

lemma place_frames_infos:
  "place_frames s fs = Some s' \<Longrightarrow> \<exists>ys. infos s' = infos s @ ys \<and> list_all2 trimmed fs ys"
proof (induction fs arbitrary: s)
  case Nil
  then show ?case by simp
next
  case (Cons f fs)
  from Cons.prems obtain s1 where s1: "place s f = Some s1" "place_frames s1 fs = Some s'"
    by (auto split: option.splits)
  from place_info [OF s1(1)] obtain info where
    i: "infos s1 = infos s @ [info]" "trimmed f info" by blast
  from Cons.IH [OF s1(2)] obtain ys where
    "infos s' = infos s1 @ ys" "list_all2 trimmed fs ys" by blast
  with i have "infos s' = infos s @ (info # ys) \<and> list_all2 trimmed (f # fs) (info # ys)"
    by simp
  then show ?case by blast
qed

lemma place_anims_infos:
  "place_anims s as = Some s' \<Longrightarrow>
     \<exists>ys. infos s' = infos s @ ys \<and> list_all2 trimmed (all_frames as) ys"
proof (induction as arbitrary: s)
  case Nil
  then show ?case by (simp add: all_frames_def)
next
  case (Cons a as)
  from Cons.prems obtain s1 where
    s1: "place_frames s (Frames a) = Some s1" "place_anims s1 as = Some s'"
    by (auto split: option.splits)
  from place_frames_infos [OF s1(1)] obtain xs where
    x: "infos s1 = infos s @ xs" "list_all2 trimmed (Frames a) xs" by blast
  from Cons.IH [OF s1(2)] obtain ys where
    y: "infos s' = infos s1 @ ys" "list_all2 trimmed (all_frames as) ys" by blast
  from x y have "infos s' = infos s @ (xs @ ys) \<and>
      list_all2 trimmed (all_frames (a # as)) (xs @ ys)"
    by (simp add: all_frames_def list_all2_appendI)
  then show ?case by blast
qed

lemma row_inv_frames:
  assumes P: "keyed P"
  shows "row_inv P s \<Longrightarrow> place_frames s fs = Some s' \<Longrightarrow>
     \<forall>f \<in> set fs. Palette (MakeImage f) = P \<Longrightarrow> \<forall>info \<in> set (infos s'). fits info \<Longrightarrow>
     row_inv P s'"
proof (induction fs arbitrary: s)
  case Nil
  then show ?case by simp
next
  case (Cons f fs)
  from Cons.prems(2) obtain s1 where
    s1: "place s f = Some s1" "place_frames s1 fs = Some s'"
    by (auto split: option.splits)
  from place_info [OF s1(1)] obtain info where i: "infos s1 = infos s @ [info]" by blast
  from place_frames_infos [OF s1(2)] obtain ys where "infos s' = infos s1 @ ys" by blast
  with i Cons.prems(4) have "fits (last (infos s1))" by simp
  from row_inv_place [OF P _ Cons.prems(1) s1(1) this] Cons.prems(3)
  have "row_inv P s1" by simp
  from Cons.IH [OF this s1(2)] Cons.prems(3,4) show ?case by simp
qed

lemma row_inv_anims:
  assumes P: "keyed P"
  shows "row_inv P s \<Longrightarrow> place_anims s as = Some s' \<Longrightarrow>
     \<forall>f \<in> set (all_frames as). Palette (MakeImage f) = P \<Longrightarrow>
     \<forall>info \<in> set (infos s'). fits info \<Longrightarrow> row_inv P s'"
proof (induction as arbitrary: s)
  case Nil
  then show ?case by simp
next
  case (Cons a as)
  from Cons.prems(2) obtain s1 where
    s1: "place_frames s (Frames a) = Some s1" "place_anims s1 as = Some s'"
    by (auto split: option.splits)
  from place_anims_infos [OF s1(2)] obtain ys where "infos s' = infos s1 @ ys" by blast
  with Cons.prems(4) have f1: "\<forall>info \<in> set (infos s1). fits info" by simp
  from Cons.prems(3) have fr: "\<forall>f \<in> set (Frames a). Palette (MakeImage f) = P"
    "\<forall>f \<in> set (all_frames as). Palette (MakeImage f) = P"
    by (simp_all add: all_frames_def)
  from row_inv_frames [OF P Cons.prems(1) s1(1) fr(1) f1] have "row_inv P s1" .
  from Cons.IH [OF this s1(2) fr(2) Cons.prems(4)] show ?case .
qed

lemma row_inv_initial: "row_inv P initial"
  by (simp add: row_inv_def initial_def NewPaletted_def disjoint_def)

lemma compose_disjoint:
  assumes "compose anims = Some s" "keyed P"
    "\<forall>f \<in> set (all_frames anims). Palette (MakeImage f) = P"
    "\<forall>info \<in> set (infos s). fits info"
  shows "disjoint (infos s)"
  using row_inv_anims [OF assms(2) row_inv_initial assms(1) [unfolded compose_def] assms(3,4)]
  by (simp add: row_inv_def)

lemma compose_trimmed:
  assumes "compose anims = Some s"
  shows "list_all2 trimmed (all_frames anims) (infos s)"
  using place_anims_infos [OF assms [unfolded compose_def]] by (simp add: initial_def)


lemma two_tone_P2: "two_tone P2"
  by (simp add: two_tone_def plain_palette_def P2_def plain_def alpha_def)

lemma two_tone_PO: "two_tone PO"
  by (simp add: two_tone_def plain_palette_def PO_def plain_def alpha_def)

lemma plain_P2: "plain_palette P2"
  using two_tone_P2 by (simp add: two_tone_def)

lemma indexed_block: "two_tone P \<Longrightarrow> indexed_by P (MakeImage (block P w h))"
  by (simp add: indexed_by_def block_def two_tone_def)

lemma visible_block:
  assumes "two_tone P" "0 < w" "0 < h"
  shows "visible (as_Image (MakeImage (block P w h))) x y \<longleftrightarrow> In (Pt x y) (image_Rect 0 0 w h)"
proof -
  from assms(1) have ne: "P \<noteq> []" and a: "0 < alpha (P ! Suc 0)"
    by (simp_all add: two_tone_def plain_palette_def)
  show ?thesis
    by (simp add: visible_indexed [OF indexed_block [OF assms(1)] ne]) (simp add: block_def a)
qed

lemma FindBbox_block:
  assumes "two_tone P" "0 < w" "0 < h"
  shows "FindBbox (as_Image (MakeImage (block P w h))) = Some (image_Rect 0 0 w h)"
proof (rule FindBbox_rect)
  from assms(1) have "P \<noteq> []" by (simp add: two_tone_def plain_palette_def)
  then show "total_on (as_Image (MakeImage (block P w h)))"
    by (rule total_indexed [OF indexed_block [OF assms(1)]])
  show "\<not> Empty (image_Rect 0 0 w h)" using assms by (simp add: Empty_def image_Rect_def)
  show "visible (as_Image (MakeImage (block P w h))) x y \<longleftrightarrow> In (Pt x y) (image_Rect 0 0 w h)" for x y
    by (rule visible_block [OF assms])
qed

lemma place_block:
  assumes tt: "two_tone P" and c: "canvas_ok P (spriteImg s)" and wh: "0 < w" "0 < h"
    and cb: "left s + w > 1024 \<Longrightarrow> FindBbox (as_Image ((spriteImg s)\<lparr>Palette := P\<rparr>)) = Some cb"
    and lt: "(l, t) = (if left s + w > 1024 then (0, Y (MaxP cb) + 1) else (left s, top' s))"
  shows "\<exists>c'. place s (block P w h) =
      Some \<lparr>left = l + w + 1, top' = t,
        infos = infos s @ [\<lparr>BBox = \<lparr>MinP = Pt l t, MaxP = Pt (l + w) (t + h)\<rparr>,
                            Origin = Pt (quo w 2) (quo h 2), Delay = 5, Action = 1\<rparr>],
        fullPalette = P, spriteImg = c'\<rparr> \<and>
      canvas_ok P c' \<and> Palette c' = P \<and>
      (\<forall>x y. ink P c' x y \<longleftrightarrow> ink P (spriteImg s) x y \<or>
         (l \<le> x \<and> x < l + w \<and> t \<le> y \<and> y < t + h \<and> In (Pt x y) (image_Rect 0 0 1024 1024)))"
proof -
  from tt have pp: "plain_palette P" by (simp add: two_tone_def)
  from place_plain [OF pp indexed_block [OF tt] c, of w h] obtain trim cb' l' t' c' where
    trim: "FindBbox (as_Image (MakeImage (block P w h))) = Some trim" and
    cb': "FindBbox (as_Image ((spriteImg s)\<lparr>Palette := P\<rparr>)) = Some cb'" and
    lt': "(l', t') = (if left s + Dx trim > 1024 then (0, Y (MaxP cb') + 1) else (left s, top' s))" and
    pl: "place s (block P w h) = Some \<lparr>left = l' + Dx trim + 1, top' = t',
        infos = infos s @ [\<lparr>BBox = \<lparr>MinP = Pt l' t', MaxP = Pt (l' + Dx trim) (t' + Dy trim)\<rparr>,
                            Origin = Pt (quo (Dx (Rect (MakeImage (block P w h)))) 2 - X (MinP trim))
                                        (quo (Dy (Rect (MakeImage (block P w h)))) 2 - Y (MinP trim)),
                            Delay = frame_Delay (block P w h), Action = frame_Action (block P w h)\<rparr>],
        fullPalette = frame_Palette (block P w h), spriteImg = c'\<rparr>" and
    c': "canvas_ok P c'" "Palette c' = P" and
    ink': "\<forall>x y. ink P c' x y \<longleftrightarrow> ink P (spriteImg s) x y \<or>
        (l' \<le> x \<and> x < l' + Dx trim \<and> t' \<le> y \<and> y < t' + Dy trim \<and>
         In (Pt x y) (image_Rect 0 0 1024 1024) \<and>
         visible (as_Image (MakeImage (block P w h))) (X (MinP trim) + (x - l')) (Y (MinP trim) + (y - t')))"
    by blast
  from trim FindBbox_block [OF tt wh] have tr: "trim = image_Rect 0 0 w h" by simp
  with wh have d: "Dx trim = w" "Dy trim = h" "X (MinP trim) = 0" "Y (MinP trim) = 0"
    by (simp_all add: Dx_def Dy_def image_Rect_def)
  have r: "Dx (Rect (MakeImage (block P w h))) = w" "Dy (Rect (MakeImage (block P w h))) = h"
    using wh by (simp_all add: block_def Dx_def Dy_def image_Rect_def)
  from lt lt' cb cb' d have l: "l' = l" "t' = t" by (auto split: if_splits)
  have v: "l \<le> x \<and> x < l + w \<and> t \<le> y \<and> y < t + h \<Longrightarrow>
      visible (as_Image (MakeImage (block P w h))) (x - l) (y - t)" for x y
    using wh by (simp add: visible_block [OF tt] In_Pt image_Rect_def)
  from pl have "place s (block P w h) =
      Some \<lparr>left = l + w + 1, top' = t,
        infos = infos s @ [\<lparr>BBox = \<lparr>MinP = Pt l t, MaxP = Pt (l + w) (t + h)\<rparr>,
                            Origin = Pt (quo w 2) (quo h 2), Delay = 5, Action = 1\<rparr>],
        fullPalette = P, spriteImg = c'\<rparr>"
    by (simp add: d r l) (simp add: block_def)
  moreover from ink' v have "\<forall>x y. ink P c' x y \<longleftrightarrow> ink P (spriteImg s) x y \<or>
         (l \<le> x \<and> x < l + w \<and> t \<le> y \<and> y < t + h \<and> In (Pt x y) (image_Rect 0 0 1024 1024))"
    by (auto simp: d l)
  ultimately show ?thesis using c' by blast
qed

lemma canvas_ok_start: "two_tone P \<Longrightarrow> canvas_ok P (spriteImg initial)"
  by (auto simp: canvas_ok_def initial_def NewPaletted_def indexed_by_def two_tone_def)

lemma ink_start: "two_tone P \<Longrightarrow> \<not> ink P (spriteImg initial) x y"
  by (auto simp: ink_def initial_def NewPaletted_def visible_def as_Image_def Paletted_At_def
      two_tone_def)

lemma same_palette: "Palette c = P \<Longrightarrow> c\<lparr>Palette := P\<rparr> = c"
  by (cases c) simp

lemma FindBbox_canvas_rect_gen:
  assumes tt: "two_tone P" and c: "canvas_ok P c" and ne: "\<not> Empty R"
    and i: "\<And>x y. ink P c x y \<longleftrightarrow> In (Pt x y) R"
  shows "FindBbox (as_Image (c\<lparr>Palette := P\<rparr>)) = Some R"
proof (rule FindBbox_rect [OF _ ne])
  from tt have "P \<noteq> []" by (simp add: two_tone_def plain_palette_def)
  with c show "total_on (as_Image (c\<lparr>Palette := P\<rparr>))"
    by (intro total_indexed [of P]) (simp_all add: canvas_ok_def)
  show "visible (as_Image (c\<lparr>Palette := P\<rparr>)) x y \<longleftrightarrow> In (Pt x y) R" for x y
    using i by (simp add: ink_def)
qed

lemma indexed_solid: "indexed_by P2 (MakeImage (solid w h))"
  unfolding solid_def by (rule indexed_block [OF two_tone_P2])

lemma FindBbox_solid:
  assumes "0 < w" "0 < h"
  shows "FindBbox (as_Image (MakeImage (solid w h))) = Some (image_Rect 0 0 w h)"
  unfolding solid_def by (rule FindBbox_block [OF two_tone_P2 assms])

lemma place_solid:
  assumes c: "canvas_ok P2 (spriteImg s)" and wh: "0 < w" "0 < h"
    and cb: "left s + w > 1024 \<Longrightarrow> FindBbox (as_Image ((spriteImg s)\<lparr>Palette := P2\<rparr>)) = Some cb"
    and lt: "(l, t) = (if left s + w > 1024 then (0, Y (MaxP cb) + 1) else (left s, top' s))"
  shows "\<exists>c'. place s (solid w h) =
      Some \<lparr>left = l + w + 1, top' = t,
        infos = infos s @ [\<lparr>BBox = \<lparr>MinP = Pt l t, MaxP = Pt (l + w) (t + h)\<rparr>,
                            Origin = Pt (quo w 2) (quo h 2), Delay = 5, Action = 1\<rparr>],
        fullPalette = P2, spriteImg = c'\<rparr> \<and>
      canvas_ok P2 c' \<and> Palette c' = P2 \<and>
      (\<forall>x y. ink P2 c' x y \<longleftrightarrow> ink P2 (spriteImg s) x y \<or>
         (l \<le> x \<and> x < l + w \<and> t \<le> y \<and> y < t + h \<and> In (Pt x y) (image_Rect 0 0 1024 1024)))"
  unfolding solid_def by (rule place_block [OF two_tone_P2 c wh cb lt])

lemma canvas_ok_initial: "canvas_ok P2 (spriteImg initial)"
  by (rule canvas_ok_start [OF two_tone_P2])

lemma ink_initial: "\<not> ink P2 (spriteImg initial) x y"
  by (rule ink_start [OF two_tone_P2])

lemma FindBbox_canvas_rect:
  assumes c: "canvas_ok P2 c" and ne: "\<not> Empty R"
    and i: "\<And>x y. ink P2 c x y \<longleftrightarrow> In (Pt x y) R"
  shows "FindBbox (as_Image (c\<lparr>Palette := P2\<rparr>)) = Some R"
  by (rule FindBbox_canvas_rect_gen [OF two_tone_P2 c ne i])

lemma wrap_example:
  "\<exists>s1 s2. place initial (solid 1 1) = Some s1 \<and> place s1 (solid 1024 1) = Some s2 \<and>
     left s1 + Dx (image_Rect 0 0 1024 1) > Dx (Rect (spriteImg s1)) \<and>
     (\<forall>x y. ink P2 (spriteImg s1) x y \<longleftrightarrow> x = 0 \<and> y = 0) \<and>
     left s2 = 1025 \<and> top' s2 = 2 \<and>
     map BBox (infos s2) = [\<lparr>MinP = Pt 0 0, MaxP = Pt 1 1\<rparr>, \<lparr>MinP = Pt 0 2, MaxP = Pt 1024 3\<rparr>]"
proof -
  have "(0, 0) = (if left initial + 1 > 1024 then (0, Y (MaxP ZR) + 1) else (left initial, top' initial))"
    by (simp add: initial_def)
  from place_solid [OF canvas_ok_initial _ _ _ this, of 1] obtain c1 where
    p1: "place initial (solid 1 1) =
      Some \<lparr>left = 2, top' = 0,
        infos = infos initial @ [\<lparr>BBox = \<lparr>MinP = Pt 0 0, MaxP = Pt 1 1\<rparr>,
                            Origin = Pt (quo 1 2) (quo 1 2), Delay = 5, Action = 1\<rparr>],
        fullPalette = P2, spriteImg = c1\<rparr>" and
    c1: "canvas_ok P2 c1" and
    i1: "\<forall>x y. ink P2 c1 x y \<longleftrightarrow> ink P2 (spriteImg initial) x y \<or>
         (0 \<le> x \<and> x < 0 + 1 \<and> 0 \<le> y \<and> y < 0 + 1 \<and> In (Pt x y) (image_Rect 0 0 1024 1024))"
    by (auto simp: initial_def)
  define s1 where "s1 = \<lparr>left = 2, top' = 0,
        infos = infos initial @ [\<lparr>BBox = \<lparr>MinP = Pt 0 0, MaxP = Pt 1 1\<rparr>,
                            Origin = Pt (quo 1 2) (quo 1 2), Delay = 5, Action = 1\<rparr>],
        fullPalette = P2, spriteImg = c1\<rparr>"
  have ink1: "ink P2 c1 x y \<longleftrightarrow> x = 0 \<and> y = 0" for x y
    using i1 by (auto simp: ink_initial In_Pt image_Rect_def)
  then have "\<And>x y. ink P2 c1 x y \<longleftrightarrow> In (Pt x y) (image_Rect 0 0 1 1)"
    by (auto simp: In_Pt image_Rect_def)
  from FindBbox_canvas_rect [OF c1 _ this]
  have cb: "FindBbox (as_Image (c1\<lparr>Palette := P2\<rparr>)) = Some (image_Rect 0 0 1 1)"
    by (simp add: Empty_def image_Rect_def)
  have "(0, 2) = (if left s1 + 1024 > 1024 then (0, Y (MaxP (image_Rect 0 0 1 1)) + 1)
                  else (left s1, top' s1))"
    by (simp add: s1_def image_Rect_def)
  from place_solid [OF _ _ _ _ this, of 1] c1 cb obtain c2 where
    p2: "place s1 (solid 1024 1) =
      Some \<lparr>left = 1025, top' = 2,
        infos = infos s1 @ [\<lparr>BBox = \<lparr>MinP = Pt 0 2, MaxP = Pt 1024 3\<rparr>,
                            Origin = Pt (quo 1024 2) (quo 1 2), Delay = 5, Action = 1\<rparr>],
        fullPalette = P2, spriteImg = c2\<rparr>"
    by (auto simp: s1_def)
  define s2 where "s2 = \<lparr>left = 1025, top' = 2,
        infos = infos s1 @ [\<lparr>BBox = \<lparr>MinP = Pt 0 2, MaxP = Pt 1024 3\<rparr>,
                            Origin = Pt (quo 1024 2) (quo 1 2), Delay = 5, Action = 1\<rparr>],
        fullPalette = P2, spriteImg = c2\<rparr>"
  have "left s1 + Dx (image_Rect 0 0 1024 1) > Dx (Rect (spriteImg s1))"
    using c1 by (simp add: s1_def canvas_ok_def Dx_def image_Rect_def)
  moreover from p1 have "place initial (solid 1 1) = Some s1" by (simp add: s1_def)
  moreover from p2 have "place s1 (solid 1024 1) = Some s2" by (simp add: s2_def)
  moreover have "\<forall>x y. ink P2 (spriteImg s1) x y \<longleftrightarrow> x = 0 \<and> y = 0"
    using ink1 by (simp add: s1_def)
  moreover have "left s2 = 1025" "top' s2 = 2"
    "map BBox (infos s2) = [\<lparr>MinP = Pt 0 0, MaxP = Pt 1 1\<rparr>, \<lparr>MinP = Pt 0 2, MaxP = Pt 1024 3\<rparr>]"
    by (simp_all add: s2_def s1_def initial_def)
  ultimately show ?thesis by (intro exI [of _ s1] exI [of _ s2] conjI)
qed

lemma wrap_top_aux:
  assumes pl: "place s f = Some s'"
    and trim: "FindBbox (as_Image (MakeImage f)) = Some trim"
    and w: "left s + Dx trim > Dx (Rect (spriteImg s))"
  shows "\<exists>cb. FindBbox (as_Image ((spriteImg s)\<lparr>Palette := Palette (MakeImage f)\<rparr>)) = Some cb \<and>
           top' s' = Y (MaxP cb) + 1 \<and> left s' = Dx trim + 1 \<and>
           BBox (last (infos s')) =
             \<lparr>MinP = Pt 0 (top' s'), MaxP = Pt (Dx trim) (top' s' + Dy trim)\<rparr> \<and>
           (\<forall>x y. visible (as_Image ((spriteImg s)\<lparr>Palette := Palette (MakeImage f)\<rparr>)) x y \<longrightarrow>
                    y + 2 \<le> top' s') \<and>
           ((\<exists>x y. visible (as_Image ((spriteImg s)\<lparr>Palette := Palette (MakeImage f)\<rparr>)) x y) \<longrightarrow>
            (\<exists>x. visible (as_Image ((spriteImg s)\<lparr>Palette := Palette (MakeImage f)\<rparr>)) x (top' s' - 2))) \<and>
           ((\<forall>x y. \<not> visible (as_Image ((spriteImg s)\<lparr>Palette := Palette (MakeImage f)\<rparr>)) x y) \<and>
            \<not> Empty (Rect (spriteImg s)) \<longrightarrow> top' s' = 1)"
proof -
  define canvas where "canvas = (spriteImg s)\<lparr>Palette := Palette (MakeImage f)\<rparr>"
  from w have w': "left s + Dx trim > Dx (Rect canvas)" by (simp add: canvas_def)
  from pl trim obtain l t where wr: "wrap s canvas trim = Some (l, t)"
    by (auto simp: place_def Let_def canvas_def split: option.splits)
  with w' obtain cb where cb: "FindBbox (as_Image canvas) = Some cb" and
    lt: "l = 0" "t = Y (MaxP cb) + 1"
    by (auto simp: wrap_def split: option.splits)
  from pl trim wr have s': "top' s' = t" "left s' = l + Dx trim + 1"
    "BBox (last (infos s')) = \<lparr>MinP = Pt l t, MaxP = Pt (l + Dx trim) (t + Dy trim)\<rparr>"
    by (auto simp: place_def Let_def canvas_def split: option.splits)
  have above: "y + 2 \<le> top' s'" if "visible (as_Image canvas) x y" for x y
    using FindBbox_visible [OF cb that] by (simp add: s' lt)
  have bottom: "\<exists>x. visible (as_Image canvas) x (top' s' - 2)"
    if "\<exists>x y. visible (as_Image canvas) x y"
  proof -
    from that obtain x y where "visible (as_Image canvas) x y" by blast
    from FindBbox_visible [OF cb this] obtain xb where
      "visible (as_Image canvas) xb (Y (MaxP cb) - 1)" by blast
    moreover have "top' s' - 2 = Y (MaxP cb) - 1" by (simp add: s' lt)
    ultimately show ?thesis by auto
  qed
  have blank: "top' s' = 1"
    if "\<forall>x y. \<not> visible (as_Image canvas) x y" "\<not> Empty (Rect (spriteImg s))"
  proof -
    from that have "cb = ZR"
      by (intro FindBbox_invisible [OF cb]) (simp_all add: as_Image_def canvas_def)
    then show ?thesis by (simp add: s' lt ZR_def)
  qed
  from cb s' lt above bottom blank show ?thesis
    unfolding canvas_def [symmetric] by auto
qed

lemma overflow_example:
  "\<exists>s. compose [\<lparr>Frames = [solid 1024 1024, solid 1 1, solid 1024 1024]\<rparr>] = Some s \<and>
     map BBox (infos s) =
       [\<lparr>MinP = Pt 0 0, MaxP = Pt 1024 1024\<rparr>,
        \<lparr>MinP = Pt 0 1025, MaxP = Pt 1 1026\<rparr>,
        \<lparr>MinP = Pt 0 1025, MaxP = Pt 1024 2049\<rparr>]"
proof -
  have "(0, 0) = (if left initial + 1024 > 1024 then (0, Y (MaxP ZR) + 1)
                  else (left initial, top' initial))"
    by (simp add: initial_def)
  from place_solid [OF canvas_ok_initial _ _ _ this, of 1024] obtain c1 where
    p1: "place initial (solid 1024 1024) =
      Some \<lparr>left = 1025, top' = 0,
        infos = [\<lparr>BBox = \<lparr>MinP = Pt 0 0, MaxP = Pt 1024 1024\<rparr>,
                  Origin = Pt (quo 1024 2) (quo 1024 2), Delay = 5, Action = 1\<rparr>],
        fullPalette = P2, spriteImg = c1\<rparr>" and
    c1: "canvas_ok P2 c1" and
    i1: "\<forall>x y. ink P2 c1 x y \<longleftrightarrow> ink P2 (spriteImg initial) x y \<or>
         (0 \<le> x \<and> x < 0 + 1024 \<and> 0 \<le> y \<and> y < 0 + 1024 \<and> In (Pt x y) (image_Rect 0 0 1024 1024))"
    by (auto simp: initial_def)
  define s1 where "s1 = \<lparr>left = 1025, top' = 0,
        infos = [\<lparr>BBox = \<lparr>MinP = Pt 0 0, MaxP = Pt 1024 1024\<rparr>,
                  Origin = Pt (quo 1024 2) (quo 1024 2), Delay = 5, Action = 1\<rparr>],
        fullPalette = P2, spriteImg = c1\<rparr>"
  have ink1: "ink P2 c1 x y \<longleftrightarrow> In (Pt x y) (image_Rect 0 0 1024 1024)" for x y
    using i1 by (auto simp: ink_initial In_Pt image_Rect_def)
  from FindBbox_canvas_rect [OF c1 _ ink1]
  have cb1: "FindBbox (as_Image (c1\<lparr>Palette := P2\<rparr>)) = Some (image_Rect 0 0 1024 1024)"
    by (simp add: Empty_def image_Rect_def)
  have "(0, 1025) = (if left s1 + 1 > 1024 then (0, Y (MaxP (image_Rect 0 0 1024 1024)) + 1)
                     else (left s1, top' s1))"
    by (simp add: s1_def image_Rect_def)
  from place_solid [OF _ _ _ _ this, of 1] c1 cb1 obtain c2 where
    p2: "place s1 (solid 1 1) =
      Some \<lparr>left = 2, top' = 1025,
        infos = infos s1 @ [\<lparr>BBox = \<lparr>MinP = Pt 0 1025, MaxP = Pt 1 1026\<rparr>,
                            Origin = Pt (quo 1 2) (quo 1 2), Delay = 5, Action = 1\<rparr>],
        fullPalette = P2, spriteImg = c2\<rparr>" and
    c2: "canvas_ok P2 c2" and
    i2: "\<forall>x y. ink P2 c2 x y \<longleftrightarrow> ink P2 (spriteImg s1) x y \<or>
         (0 \<le> x \<and> x < 0 + 1 \<and> 1025 \<le> y \<and> y < 1025 + 1 \<and> In (Pt x y) (image_Rect 0 0 1024 1024))"
    by (auto simp: s1_def)
  define s2 where "s2 = \<lparr>left = 2, top' = 1025,
        infos = infos s1 @ [\<lparr>BBox = \<lparr>MinP = Pt 0 1025, MaxP = Pt 1 1026\<rparr>,
                            Origin = Pt (quo 1 2) (quo 1 2), Delay = 5, Action = 1\<rparr>],
        fullPalette = P2, spriteImg = c2\<rparr>"
  have ink2: "ink P2 c2 x y \<longleftrightarrow> In (Pt x y) (image_Rect 0 0 1024 1024)" for x y
    using i2 ink1 by (auto simp: s1_def In_Pt image_Rect_def)
  from FindBbox_canvas_rect [OF c2 _ ink2]
  have cb2: "FindBbox (as_Image (c2\<lparr>Palette := P2\<rparr>)) = Some (image_Rect 0 0 1024 1024)"
    by (simp add: Empty_def image_Rect_def)
  have "(0, 1025) = (if left s2 + 1024 > 1024 then (0, Y (MaxP (image_Rect 0 0 1024 1024)) + 1)
                     else (left s2, top' s2))"
    by (simp add: s2_def image_Rect_def)
  from place_solid [OF _ _ _ _ this, of 1024] c2 cb2 obtain c3 where
    p3: "place s2 (solid 1024 1024) =
      Some \<lparr>left = 1025, top' = 1025,
        infos = infos s2 @ [\<lparr>BBox = \<lparr>MinP = Pt 0 1025, MaxP = Pt 1024 2049\<rparr>,
                            Origin = Pt (quo 1024 2) (quo 1024 2), Delay = 5, Action = 1\<rparr>],
        fullPalette = P2, spriteImg = c3\<rparr>"
    by (auto simp: s2_def)
  from p1 p2 p3 show ?thesis
    by (simp add: compose_def s1_def [symmetric] s2_def [symmetric]) (simp add: s1_def s2_def)
qed

text \<open>
  Claim C4, as the code has it. When the cursor wraps, the frame is placed at \<open>x = 0\<close>
  and \<open>top\<close> becomes \<open>FindBbox(spriteImg).Max.Y + 1\<close>: every visible row of the canvas lies
  at least two rows above it, the row two above it is the bottommost visible row, and
  \<open>top\<close> is 1 when the canvas shows nothing.
\<close>

theorem wrap_resets_cursor:
  assumes "place s f = Some s'"
    and "FindBbox (as_Image (MakeImage f)) = Some trim"
    and "left s + Dx trim > Dx (Rect (spriteImg s))"
  shows "\<exists>cb. FindBbox (as_Image ((spriteImg s)\<lparr>Palette := Palette (MakeImage f)\<rparr>)) = Some cb \<and>
           top' s' = Y (MaxP cb) + 1 \<and> left s' = Dx trim + 1 \<and>
           BBox (last (infos s')) =
             \<lparr>MinP = Pt 0 (top' s'), MaxP = Pt (Dx trim) (top' s' + Dy trim)\<rparr> \<and>
           (\<forall>x y. visible (as_Image ((spriteImg s)\<lparr>Palette := Palette (MakeImage f)\<rparr>)) x y \<longrightarrow>
                    y + 2 \<le> top' s') \<and>
           ((\<exists>x y. visible (as_Image ((spriteImg s)\<lparr>Palette := Palette (MakeImage f)\<rparr>)) x y) \<longrightarrow>
            (\<exists>x. visible (as_Image ((spriteImg s)\<lparr>Palette := Palette (MakeImage f)\<rparr>)) x (top' s' - 2))) \<and>
           ((\<forall>x y. \<not> visible (as_Image ((spriteImg s)\<lparr>Palette := Palette (MakeImage f)\<rparr>)) x y) \<and>
            \<not> Empty (Rect (spriteImg s)) \<longrightarrow> top' s' = 1)"
  using assms by (rule wrap_top_aux)

theorem wrap_resets_cursor_witness:
  "\<exists>s1 s2 cb. place initial (solid 1 1) = Some s1 \<and> place s1 (solid 1024 1) = Some s2 \<and>
     FindBbox (as_Image ((spriteImg s1)\<lparr>Palette := P2\<rparr>)) = Some cb \<and>
     top' s2 = Y (MaxP cb) + 1 \<and> left s2 = 1024 + 1"
proof -
  from wrap_example obtain s1 s2 where
    p: "place initial (solid 1 1) = Some s1" "place s1 (solid 1024 1) = Some s2"
    and w: "left s1 + Dx (image_Rect 0 0 1024 1) > Dx (Rect (spriteImg s1))" by (elim exE conjE) (rule that)
  have t: "FindBbox (as_Image (MakeImage (solid 1024 1))) = Some (image_Rect 0 0 1024 1)"
    by (rule FindBbox_solid) simp_all
  from wrap_resets_cursor [OF p(2) t w] p show ?thesis
    by (auto simp: solid_def block_def Dx_def image_Rect_def)
qed

text \<open>
  Claim C4 as stated fails: after one 1 by 1 frame only row 0 of the canvas is visible,
  the next frame (1024 wide) wraps, and \<open>top\<close> becomes 2, not 1.
\<close>

theorem wrap_top_counterexample:
  "\<exists>s1 s2. place initial (solid 1 1) = Some s1 \<and> place s1 (solid 1024 1) = Some s2 \<and>
     left s1 + Dx (image_Rect 0 0 1024 1) > Dx (Rect (spriteImg s1)) \<and>
     (\<forall>x y. ink P2 (spriteImg s1) x y \<longleftrightarrow> x = 0 \<and> y = 0) \<and>
     top' s2 = 2 \<and> top' s2 \<noteq> 0 + 1"
proof -
  from wrap_example obtain s1 s2 where
    "place initial (solid 1 1) = Some s1" "place s1 (solid 1024 1) = Some s2"
    "left s1 + Dx (image_Rect 0 0 1024 1) > Dx (Rect (spriteImg s1))"
    "\<forall>x y. ink P2 (spriteImg s1) x y \<longleftrightarrow> x = 0 \<and> y = 0" "top' s2 = 2" by (elim exE conjE) (rule that)
  then show ?thesis by (intro exI [of _ s1] exI [of _ s2]) simp
qed

text \<open>
  Two tiles of 1024 by 2 pixels, when the first leaves no visible pixel on the canvas
  as the palette of the second reads it: the second wraps to row 1, inside the first.
\<close>

lemma visible_tile:
  assumes "unat k < length P" "alpha (P ! unat k) \<noteq> 0"
  shows "visible (as_Image (MakeImage (tile P k w h))) x y \<longleftrightarrow> In (Pt x y) (image_Rect 0 0 w h)"
  using assms by (auto simp: visible_def as_Image_def Paletted_At_def tile_def)

lemma FindBbox_tile:
  assumes k: "unat k < length P" "alpha (P ! unat k) \<noteq> 0" and wh: "0 < w" "0 < h"
  shows "FindBbox (as_Image (MakeImage (tile P k w h))) = Some (image_Rect 0 0 w h)"
proof (rule FindBbox_rect)
  show "total_on (as_Image (MakeImage (tile P k w h)))"
    using k(1) by (auto simp: total_on_def as_Image_def Paletted_At_def tile_def)
  show "\<not> Empty (image_Rect 0 0 w h)" using wh by (simp add: Empty_def image_Rect_def)
  show "visible (as_Image (MakeImage (tile P k w h))) x y \<longleftrightarrow> In (Pt x y) (image_Rect 0 0 w h)" for x y
    by (rule visible_tile [OF k])
qed

lemma place_tile:
  assumes c: "Rect (spriteImg s) = image_Rect 0 0 1024 1024"
    and z: "\<And>x y. unat (Pix (spriteImg s) x y) < length P \<and>
                   color_RGBA (P ! unat (Pix (spriteImg s) x y)) = d"
    and da: "snd (snd (snd d)) = 0"
    and k: "unat k < length P" "alpha (P ! unat k) \<noteq> 0"
    and wh: "0 < w" "0 < h"
    and lt: "(l, t) = (if left s + w > 1024 then (0, 1) else (left s, top' s))"
    and fit: "0 \<le> l" "0 \<le> t" "l + w \<le> 1024" "t + h \<le> 1024"
  shows "place s (tile P k w h) =
      Some \<lparr>left = l + w + 1, top' = t,
        infos = infos s @ [\<lparr>BBox = \<lparr>MinP = Pt l t, MaxP = Pt (l + w) (t + h)\<rparr>,
                            Origin = Pt (quo w 2) (quo h 2), Delay = 5, Action = 1\<rparr>],
        fullPalette = P,
        spriteImg = \<lparr>Pix = (\<lambda>x y. if In (Pt x y) \<lparr>MinP = Pt l t, MaxP = Pt (l + w) (t + h)\<rparr>
                                   then of_nat (Palette_Index P (over (color_RGBA (P ! unat k)) d))
                                   else Pix (spriteImg s) x y),
                     Rect = image_Rect 0 0 1024 1024, Palette = P\<rparr>\<rparr>"
proof -
  from k(1) have ne: "P \<noteq> []" by auto
  define img where "img = MakeImage (tile P k w h)"
  define canvas where "canvas = (spriteImg s)\<lparr>Palette := P\<rparr>"
  define B where "B = \<lparr>MinP = Pt l t, MaxP = Pt (l + w) (t + h)\<rparr>"
  define j :: byte where "j = of_nat (Palette_Index P (over (color_RGBA (P ! unat k)) d))"
  have im: "Palette img = P" "Rect img = image_Rect 0 0 w h" "\<And>x y. Pix img x y = k"
    by (simp_all add: img_def tile_def)
  have trim: "FindBbox (as_Image img) = Some (image_Rect 0 0 w h)"
    unfolding img_def by (rule FindBbox_tile [OF k wh])
  have tr: "Dx (image_Rect 0 0 w h) = w" "Dy (image_Rect 0 0 w h) = h"
    "MinP (image_Rect 0 0 w h) = Pt 0 0"
    using wh by (simp_all add: Dx_def Dy_def image_Rect_def)
  have rc: "Rect canvas = image_Rect 0 0 1024 1024" and pc: "Palette canvas = P"
    and xc: "\<And>x y. Pix canvas x y = Pix (spriteImg s) x y"
    by (simp_all add: canvas_def c)
  have dc: "Dx (Rect canvas) = 1024" by (simp add: rc Dx_def image_Rect_def)
  have at: "Paletted_At canvas x y = Some (P ! unat (Pix (spriteImg s) x y))"
    if "In (Pt x y) (Rect canvas)" for x y
    using that z [of x y] ne by (simp add: Paletted_At_def pc xc)
  have w: "wrap s canvas (image_Rect 0 0 w h) = Some (l, t)"
  proof (cases "left s + w > 1024")
    case True
    have tot: "total_on (as_Image canvas)"
      using at by (simp add: total_on_def as_Image_def)
    then obtain cb where cb: "FindBbox (as_Image canvas) = Some cb"
      using FindBbox_total by blast
    have inv: "\<not> visible (as_Image canvas) x y" for x y
    proof
      assume v: "visible (as_Image canvas) x y"
      then have i: "In (Pt x y) (Rect canvas)" by (simp add: visible_def as_Image_def)
      from v at [OF i] have "alpha (P ! unat (Pix (spriteImg s) x y)) \<noteq> 0"
        by (simp add: visible_def as_Image_def)
      with z [of x y] da show False by (simp add: alpha_def split: prod.splits)
    qed
    have "\<not> Empty (Bounds (as_Image canvas))"
      by (simp add: as_Image_def rc Empty_def image_Rect_def)
    from FindBbox_invisible [OF cb inv this] have "cb = ZR" .
    with cb True lt show ?thesis by (simp add: wrap_def tr dc ZR_def)
  next
    case False
    with lt show ?thesis by (simp add: wrap_def tr dc)
  qed
  have cl: "In (Pt x y) (clip (Rect canvas) B (Rect img) (Pt 0 0)) \<longleftrightarrow> In (Pt x y) B" for x y
    unfolding In_clip using fit wh by (auto simp: In_Pt B_def rc im image_Rect_def)
  have px: "draw_pixel canvas img (MinP B) (Pt 0 0) x y = Some j" if "In (Pt x y) B" for x y
  proof -
    from that fit have ic: "In (Pt x y) (Rect canvas)"
      by (auto simp: In_Pt B_def rc image_Rect_def)
    from that wh have "In (Pt (x - l) (y - t)) (Rect img)"
      by (auto simp: In_Pt B_def im image_Rect_def)
    then have "Paletted_At img (x - l) (y - t) = Some (P ! unat k)"
      using k(1) ne by (simp add: Paletted_At_def im)
    with at [OF ic] z [of x y] show ?thesis
      by (simp add: draw_pixel_def B_def pc j_def)
  qed
  have "Draw canvas B img (Pt 0 0) =
      Some (canvas\<lparr>Pix := (\<lambda>x y. if In (Pt x y) (clip (Rect canvas) B (Rect img) (Pt 0 0))
                                      then the (draw_pixel canvas img (MinP B) (Pt 0 0) x y)
                                      else Pix canvas x y)\<rparr>)"
    by (rule Draw_Some) (simp add: cl px)
  also have "(\<lambda>x y. if In (Pt x y) (clip (Rect canvas) B (Rect img) (Pt 0 0))
                     then the (draw_pixel canvas img (MinP B) (Pt 0 0) x y)
                     else Pix canvas x y) =
             (\<lambda>x y. if In (Pt x y) B then j else Pix (spriteImg s) x y)"
    by (intro ext) (simp add: cl px xc)
  also have "canvas\<lparr>Pix := (\<lambda>x y. if In (Pt x y) B then j else Pix (spriteImg s) x y)\<rparr> =
      \<lparr>Pix = (\<lambda>x y. if In (Pt x y) B then j else Pix (spriteImg s) x y),
       Rect = image_Rect 0 0 1024 1024, Palette = P\<rparr>"
    by (simp add: canvas_def c)
  finally have d: "Draw canvas B img (Pt 0 0) =
      Some \<lparr>Pix = (\<lambda>x y. if In (Pt x y) B then j else Pix (spriteImg s) x y),
            Rect = image_Rect 0 0 1024 1024, Palette = P\<rparr>" .
  have fr: "frame_Palette (tile P k w h) = P" "frame_Delay (tile P k w h) = 5"
    "frame_Action (tile P k w h) = 1"
    by (simp_all add: tile_def)
  have sz: "Dx (Rect img) = w" "Dy (Rect img) = h"
    using wh by (simp_all add: im Dx_def Dy_def image_Rect_def)
  show ?thesis
    unfolding place_def Let_def img_def [symmetric] im(1) canvas_def [symmetric]
    using trim w d [unfolded B_def j_def]
    by (simp add: tr sz fr)
qed

lemma two_tiles:
  assumes ka: "unat ka < length Pa" "alpha (Pa ! unat ka) \<noteq> 0"
    and kb: "unat kb < length Pb" "alpha (Pb ! unat kb) \<noteq> 0"
    and aa: "alpha (Pa ! 0) = 0" and ab: "alpha (Pb ! 0) = 0"
    and ja: "Palette_Index Pa (over (color_RGBA (Pa ! unat ka)) (color_RGBA (Pa ! 0))) = ja"
    and zb: "ja < length Pb" "ja < 256" "color_RGBA (Pb ! ja) = color_RGBA (Pb ! 0)"
  shows "map_option (map BBox \<circ> infos)
           (compose [\<lparr>Frames = [tile Pa ka 1024 2, tile Pb kb 1024 2]\<rparr>]) =
         Some [\<lparr>MinP = Pt 0 0, MaxP = Pt 1024 2\<rparr>, \<lparr>MinP = Pt 0 1, MaxP = Pt 1024 3\<rparr>]"
proof -
  define c1 where "c1 = \<lparr>Pix = (\<lambda>x y. if In (Pt x y) \<lparr>MinP = Pt 0 0, MaxP = Pt (0 + 1024) (0 + 2)\<rparr>
                      then of_nat (Palette_Index Pa (over (color_RGBA (Pa ! unat ka)) (color_RGBA (Pa ! 0))))
                      else Pix (spriteImg initial) x y),
                     Rect = image_Rect 0 0 1024 1024, Palette = Pa\<rparr>"
  define s1 where "s1 = \<lparr>left = 0 + 1024 + 1, top' = 0,
        infos = infos initial @ [\<lparr>BBox = \<lparr>MinP = Pt 0 0, MaxP = Pt (0 + 1024) (0 + 2)\<rparr>,
                            Origin = Pt (quo 1024 2) (quo 2 2), Delay = 5, Action = 1\<rparr>],
        fullPalette = Pa, spriteImg = c1\<rparr>"
  from ka(1) have na: "0 < length Pa" by auto
  have da: "snd (snd (snd (color_RGBA (Pa ! 0)))) = 0"
    using aa by (simp add: alpha_def split: prod.splits)
  have p1: "place initial (tile Pa ka 1024 2) = Some s1"
    unfolding s1_def c1_def
    by (rule place_tile [where d = "color_RGBA (Pa ! 0)", OF _ _ da ka])
      (insert na, simp_all add: initial_def NewPaletted_def)
  have pix1: "Pix (spriteImg s1) x y = 0 \<or> Pix (spriteImg s1) x y = of_nat ja" for x y
    by (simp add: s1_def c1_def ja initial_def NewPaletted_def)
  have un: "unat (of_nat ja :: byte) = ja" using zb(2) by (rule unat_byte_of_nat)
  from kb(1) have nb: "0 < length Pb" by auto
  have z: "unat (Pix (spriteImg s1) x y) < length Pb \<and>
           color_RGBA (Pb ! unat (Pix (spriteImg s1) x y)) = color_RGBA (Pb ! 0)" for x y
    using pix1 [of x y] nb zb un by auto
  have db: "snd (snd (snd (color_RGBA (Pb ! 0)))) = 0"
    using ab by (simp add: alpha_def split: prod.splits)
  have r1: "Rect (spriteImg s1) = image_Rect 0 0 1024 1024" by (simp add: s1_def c1_def)
  have lt: "(0, 1) = (if left s1 + 1024 > 1024 then (0, 1) else (left s1, top' s1))"
    by (simp add: s1_def)
  define s2 where "s2 = \<lparr>left = 0 + 1024 + 1, top' = 1,
        infos = infos s1 @ [\<lparr>BBox = \<lparr>MinP = Pt 0 1, MaxP = Pt (0 + 1024) (1 + 2)\<rparr>,
                            Origin = Pt (quo 1024 2) (quo 2 2), Delay = 5, Action = 1\<rparr>],
        fullPalette = Pb,
        spriteImg = \<lparr>Pix = (\<lambda>x y. if In (Pt x y) \<lparr>MinP = Pt 0 1, MaxP = Pt (0 + 1024) (1 + 2)\<rparr>
                      then of_nat (Palette_Index Pb (over (color_RGBA (Pb ! unat kb)) (color_RGBA (Pb ! 0))))
                      else Pix (spriteImg s1) x y),
                     Rect = image_Rect 0 0 1024 1024, Palette = Pb\<rparr>\<rparr>"
  have p2: "place s1 (tile Pb kb 1024 2) = Some s2"
    unfolding s2_def
    by (rule place_tile [OF r1 z db kb _ _ lt]) simp_all
  from p1 p2 have "compose [\<lparr>Frames = [tile Pa ka 1024 2, tile Pb kb 1024 2]\<rparr>] = Some s2"
    by (simp add: compose_def)
  then show ?thesis by (simp add: s2_def s1_def initial_def)
qed

lemma over_alpha:
  assumes "sa \<le> 65535"
  shows "over (sr, sg, sb, sa) (dr, dg, db, da) =
     (over_channel dr sr (65535 - sa), over_channel dg sg (65535 - sa),
      over_channel db sb (65535 - sa), over_channel da sa (65535 - sa))"
proof -
  from assms have "sa * 65535 \<le> 65535 * 65535" by simp
  then have "sa * 65535 < 2 ^ 32" by simp
  then have "((sa * 65535) mod 2 ^ 32) div 65535 = sa" by simp
  moreover have "(65535 + 2 ^ 32 - sa) mod 2 ^ 32 = 65535 - sa"
  proof -
    from assms have "65535 + 2 ^ 32 - sa = (65535 - sa) + 1 * 2 ^ 32" by simp
    then have "(65535 + 2 ^ 32 - sa) mod 2 ^ 32 = (65535 - sa) mod 2 ^ 32"
      by (simp only: mod_mult_self1)
    then show ?thesis by simp
  qed
  ultimately show ?thesis by (simp add: over_def Let_def)
qed

lemma late_white_index:
  "Palette_Index late_white
      (over (color_RGBA (late_white ! unat (2 :: byte))) (color_RGBA (late_white ! 0))) = 2"
proof -
  define j where "j = Palette_Index late_white
      (over (color_RGBA (late_white ! 2)) (color_RGBA (late_white ! 0)))"
  have k: "keyed late_white" by (simp add: keyed_def late_white_def)
  have a: "alpha (late_white ! 0) = 0" "alpha (late_white ! 1) = 0" "alpha (late_white ! 2) \<noteq> 0"
    by (simp_all add: late_white_def alpha_def)
  from keyed_index [OF k _ a(3)] have j: "j \<le> 2" "alpha (late_white ! j) \<noteq> 0"
    by (simp_all add: j_def late_white_def)
  from j(1) have "j = 0 \<or> j = 1 \<or> j = 2" by auto
  with j(2) a have "j = 2" by auto
  then show ?thesis by (simp add: j_def)
qed

lemma red_key_index:
  "Palette_Index red_key
      (over (color_RGBA (red_key ! unat (1 :: byte))) (color_RGBA (red_key ! 0))) = 0"
proof -
  have c: "color_RGBA (RGBA 255 0 0 0) = (65535, 0, 0, 0)" "color_RGBA (RGBA 0 0 0 1) = (0, 0, 0, 257)"
    by simp_all
  have oc: "over_channel 65535 0 65278 = 65278" "over_channel 0 0 65278 = 0"
    "over_channel 0 257 65278 = 257"
    by (simp_all add: over_channel_def)
  have ov: "over (0, 0, 0, 257) (65535, 0, 0, 0) = (65278, 0, 0, 257)"
    by (simp add: over_alpha oc)
  have sq: "sqDiff 65278 65535 = 16512" "sqDiff 257 0 = 16512" "sqDiff 0 0 = 0"
    "sqDiff 65278 0 = 1065304321" "sqDiff 257 257 = 0"
    by (simp_all add: sqDiff_def)
  have d: "dist4 (65278, 0, 0, 257) (RGBA 255 0 0 0) = 33024"
    "dist4 (65278, 0, 0, 257) (RGBA 0 0 0 1) = 1065304321"
    by (simp_all add: dist4_def c sq)
  have "Palette_Index red_key (65278, 0, 0, 257) = 0"
    by (simp add: Palette_Index_def red_key_def Index_loop_step d)
  then show ?thesis by (simp add: red_key_def c ov)
qed

lemma faint_index:
  "Palette_Index faint
      (over (color_RGBA (faint ! unat (1 :: byte))) (color_RGBA (faint ! 0))) = 0"
proof -
  have oc: "over_channel 0 0 65534 = 0" "over_channel 0 1 65534 = 1"
    by (simp_all add: over_channel_def)
  have ov: "over (0, 0, 0, 1) (0, 0, 0, 0) = (0, 0, 0, 1)"
    using over_alpha [of 1 0 0 0 0 0 0 0] oc by simp
  have sq: "sqDiff 0 0 = 0" "sqDiff 1 0 = 0"
    by (simp_all add: sqDiff_def)
  have d: "dist4 (0, 0, 0, 1) (OtherColor 0 0 0 0) = 0"
    by (simp add: dist4_def sq del: One_nat_def)
  have "Palette_Index faint (0, 0, 0, 1) = 0"
    by (simp add: Palette_Index_def faint_def Index_loop_step d del: One_nat_def)
  moreover have "color_RGBA (faint ! unat (1 :: byte)) = (0, 0, 0, 1)"
    "color_RGBA (faint ! 0) = (0, 0, 0, 0)"
    by (simp_all add: faint_def)
  ultimately show ?thesis by (simp add: ov del: One_nat_def)
qed

lemma switch_example:
  "map_option (map BBox \<circ> infos)
     (compose [\<lparr>Frames = [tile late_white 2 1024 2, tile early_white 1 1024 2]\<rparr>]) =
   Some [\<lparr>MinP = Pt 0 0, MaxP = Pt 1024 2\<rparr>, \<lparr>MinP = Pt 0 1, MaxP = Pt 1024 3\<rparr>]"
  by (rule two_tiles [where ja = 2, OF _ _ _ _ _ _ late_white_index])
    (simp_all add: late_white_def early_white_def alpha_def)

lemma red_key_example:
  "map_option (map BBox \<circ> infos)
     (compose [\<lparr>Frames = [tile red_key 1 1024 2, tile red_key 1 1024 2]\<rparr>]) =
   Some [\<lparr>MinP = Pt 0 0, MaxP = Pt 1024 2\<rparr>, \<lparr>MinP = Pt 0 1, MaxP = Pt 1024 3\<rparr>]"
  by (rule two_tiles [where ja = 0, OF _ _ _ _ _ _ red_key_index])
    (simp_all add: red_key_def alpha_def)

lemma faint_example:
  "map_option (map BBox \<circ> infos)
     (compose [\<lparr>Frames = [tile faint 1 1024 2, tile faint 1 1024 2]\<rparr>]) =
   Some [\<lparr>MinP = Pt 0 0, MaxP = Pt 1024 2\<rparr>, \<lparr>MinP = Pt 0 1, MaxP = Pt 1024 3\<rparr>]"
  by (rule two_tiles [where ja = 0, OF _ _ _ _ _ _ faint_index])
    (simp_all add: faint_def alpha_def)

text \<open>
  Claim C2, as the code has it. Every placement rectangle has the width and height of
  its frame's trimmed bounding box. When the frames share one keyed palette and every
  placement rectangle ends inside the canvas, no two placement rectangles overlap.
\<close>

theorem placements_disjoint:
  assumes "compose anims = Some s"
  shows "list_all2 trimmed (all_frames anims) (infos s) \<and>
         (keyed P \<and> (\<forall>f \<in> set (all_frames anims). Palette (MakeImage f) = P) \<and>
          (\<forall>info \<in> set (infos s). fits info) \<longrightarrow>
            (\<forall>i j. i < j \<and> j < length (infos s) \<longrightarrow>
               \<not> Overlaps (BBox (infos s ! i)) (BBox (infos s ! j))))"
proof (intro conjI impI)
  show "list_all2 trimmed (all_frames anims) (infos s)"
    by (rule compose_trimmed [OF assms])
next
  assume "keyed P \<and> (\<forall>f \<in> set (all_frames anims). Palette (MakeImage f) = P) \<and>
          (\<forall>info \<in> set (infos s). fits info)"
  then have "disjoint (infos s)" using compose_disjoint [OF assms, of P] by simp
  then show "\<forall>i j. i < j \<and> j < length (infos s) \<longrightarrow>
               \<not> Overlaps (BBox (infos s ! i)) (BBox (infos s ! j))"
    by (simp add: disjoint_def)
qed

theorem placements_disjoint_witness:
  "\<exists>s. compose [\<lparr>Frames = [solid 1 1, solid 1024 1]\<rparr>] = Some s \<and> keyed P2 \<and>
     map BBox (infos s) = [\<lparr>MinP = Pt 0 0, MaxP = Pt 1 1\<rparr>, \<lparr>MinP = Pt 0 2, MaxP = Pt 1024 3\<rparr>] \<and>
     \<not> Overlaps (BBox (infos s ! 0)) (BBox (infos s ! 1)) \<and>
     list_all2 trimmed [solid 1 1, solid 1024 1] (infos s)"
proof -
  from wrap_example obtain s1 s2 where
    p: "place initial (solid 1 1) = Some s1" "place s1 (solid 1024 1) = Some s2"
    and b: "map BBox (infos s2) = [\<lparr>MinP = Pt 0 0, MaxP = Pt 1 1\<rparr>, \<lparr>MinP = Pt 0 2, MaxP = Pt 1024 3\<rparr>]"
    by (elim exE conjE) (rule that)
  from p have c: "compose [\<lparr>Frames = [solid 1 1, solid 1024 1]\<rparr>] = Some s2"
    by (simp add: compose_def)
  from b obtain i0 i1 where eq: "infos s2 = [i0, i1]"
    "BBox i0 = \<lparr>MinP = Pt 0 0, MaxP = Pt 1 1\<rparr>" "BBox i1 = \<lparr>MinP = Pt 0 2, MaxP = Pt 1024 3\<rparr>"
    by (auto simp: map_eq_Cons_conv)
  have k: "keyed P2" by (simp add: keyed_def P2_def)
  have h3: "\<forall>f \<in> set (all_frames [\<lparr>Frames = [solid 1 1, solid 1024 1]\<rparr>]). Palette (MakeImage f) = P2"
    by (simp add: all_frames_def solid_def block_def)
  have h4: "\<forall>info \<in> set (infos s2). fits info" by (simp add: eq fits_def)
  note pd = placements_disjoint [OF c, of P2]
  from pd have tr: "list_all2 trimmed [solid 1 1, solid 1024 1] (infos s2)"
    by (simp add: all_frames_def)
  from pd k h3 h4 have "\<forall>i j. i < j \<and> j < length (infos s2) \<longrightarrow>
      \<not> Overlaps (BBox (infos s2 ! i)) (BBox (infos s2 ! j))"
    by (elim conjE impE) (intro conjI, assumption+)
  then have "0 < (1 :: nat) \<and> 1 < length (infos s2) \<longrightarrow>
      \<not> Overlaps (BBox (infos s2 ! 0)) (BBox (infos s2 ! 1))"
    by (elim allE)
  then have "\<not> Overlaps (BBox (infos s2 ! 0)) (BBox (infos s2 ! 1))" by (simp add: eq)
  with c k b tr show ?thesis by (intro exI [of _ s2] conjI)
qed

text \<open>
  Claim C2 as stated fails in its first half, and each condition of the amended claim
  is needed. The rectangles overlap
  when the canvas overflows: a 1024 by 1024 frame fills it, and the next two frames
  both wrap to \<open>(0, 1025)\<close>, below the canvas, where nothing is drawn;
  when the palette changes between frames: what the first frame drew is transparent
  in the palette of the second, so the second row starts at 1, inside the first;
  when entry 0 of the palette is transparent but not all zero, or when the entries are
  not of type \<open>color.RGBA\<close>: the nearest palette entry to what is drawn over the
  untouched canvas is entry 0, so nothing of the first frame is visible.
  In the last three cases both rectangles end inside the canvas.
\<close>

theorem placements_overlap_counterexample:
  "map_option (map BBox \<circ> infos)
     (compose [\<lparr>Frames = [solid 1024 1024, solid 1 1, solid 1024 1024]\<rparr>]) =
     Some [\<lparr>MinP = Pt 0 0, MaxP = Pt 1024 1024\<rparr>,
           \<lparr>MinP = Pt 0 1025, MaxP = Pt 1 1026\<rparr>,
           \<lparr>MinP = Pt 0 1025, MaxP = Pt 1024 2049\<rparr>] \<and>
   Overlaps \<lparr>MinP = Pt 0 1025, MaxP = Pt 1 1026\<rparr> \<lparr>MinP = Pt 0 1025, MaxP = Pt 1024 2049\<rparr> \<and>
   keyed P2 \<and>
   map_option (map BBox \<circ> infos)
     (compose [\<lparr>Frames = [tile late_white 2 1024 2, tile early_white 1 1024 2]\<rparr>]) =
     Some [\<lparr>MinP = Pt 0 0, MaxP = Pt 1024 2\<rparr>, \<lparr>MinP = Pt 0 1, MaxP = Pt 1024 3\<rparr>] \<and>
   keyed late_white \<and> keyed early_white \<and>
   map_option (map BBox \<circ> infos)
     (compose [\<lparr>Frames = [tile red_key 1 1024 2, tile red_key 1 1024 2]\<rparr>]) =
     Some [\<lparr>MinP = Pt 0 0, MaxP = Pt 1024 2\<rparr>, \<lparr>MinP = Pt 0 1, MaxP = Pt 1024 3\<rparr>] \<and>
   list_all is_RGBA red_key \<and> alpha (red_key ! 0) = 0 \<and>
   map_option (map BBox \<circ> infos)
     (compose [\<lparr>Frames = [tile faint 1 1024 2, tile faint 1 1024 2]\<rparr>]) =
     Some [\<lparr>MinP = Pt 0 0, MaxP = Pt 1024 2\<rparr>, \<lparr>MinP = Pt 0 1, MaxP = Pt 1024 3\<rparr>] \<and>
   color_RGBA (faint ! 0) = (0, 0, 0, 0) \<and>
   Overlaps \<lparr>MinP = Pt 0 0, MaxP = Pt 1024 2\<rparr> \<lparr>MinP = Pt 0 1, MaxP = Pt 1024 3\<rparr>"
proof -
  from overflow_example obtain s where
    c: "compose [\<lparr>Frames = [solid 1024 1024, solid 1 1, solid 1024 1024]\<rparr>] = Some s" and
    b: "map BBox (infos s) =
       [\<lparr>MinP = Pt 0 0, MaxP = Pt 1024 1024\<rparr>,
        \<lparr>MinP = Pt 0 1025, MaxP = Pt 1 1026\<rparr>,
        \<lparr>MinP = Pt 0 1025, MaxP = Pt 1024 2049\<rparr>]" by (elim exE conjE) (rule that)
  then have 1: "map_option (map BBox \<circ> infos)
     (compose [\<lparr>Frames = [solid 1024 1024, solid 1 1, solid 1024 1024]\<rparr>]) =
     Some [\<lparr>MinP = Pt 0 0, MaxP = Pt 1024 1024\<rparr>,
           \<lparr>MinP = Pt 0 1025, MaxP = Pt 1 1026\<rparr>,
           \<lparr>MinP = Pt 0 1025, MaxP = Pt 1024 2049\<rparr>]" by simp
  have 2: "Overlaps \<lparr>MinP = Pt 0 1025, MaxP = Pt 1 1026\<rparr> \<lparr>MinP = Pt 0 1025, MaxP = Pt 1024 2049\<rparr>"
    "Overlaps \<lparr>MinP = Pt 0 0, MaxP = Pt 1024 2\<rparr> \<lparr>MinP = Pt 0 1, MaxP = Pt 1024 3\<rparr>"
    by (simp_all add: Overlaps_def Empty_def)
  have 3: "keyed P2" "keyed late_white" "keyed early_white"
    by (simp_all add: keyed_def P2_def late_white_def early_white_def)
  have 4: "list_all is_RGBA red_key" "alpha (red_key ! 0) = 0"
    "color_RGBA (faint ! 0) = (0, 0, 0, 0)"
    by (simp_all add: red_key_def faint_def alpha_def)
  from 1 2 3 4 switch_example red_key_example faint_example show ?thesis
    by (intro conjI)
qed

section \<open>Properties of the control table\<close>

lemma get_put_int16:
  assumes "int16_ok v"
  shows "get_int16 (word_of_int (v mod 256)) (word_of_int ((v div 256) mod 256)) = v"
proof -
  have a: "uint (word_of_int (v mod 256) :: byte) = v mod 256"
    by (simp add: uint_word_of_int)
  have b: "uint (word_of_int ((v div 256) mod 256) :: byte) = (v div 256) mod 256"
    by (simp add: uint_word_of_int)
  from assms have r: "- 32768 \<le> v" "v < 32768" by (simp_all add: int16_ok_def)
  define q where "q = v div 256"
  define m where "m = v mod 256"
  have v: "v = 256 * q + m" by (simp add: q_def m_def)
  have m: "0 \<le> m" "m < 256" by (simp_all add: m_def)
  from r v m have q: "- 128 \<le> q" "q < 128" by linarith+
  have qm: "q mod 256 = (if 0 \<le> q then q else q + 256)"
  proof (cases "0 \<le> q")
    case True
    with q show ?thesis by simp
  next
    case False
    with q have "(q + 256) mod 256 = q + 256" by (intro mod_pos_pos_trivial) simp_all
    with False show ?thesis by simp
  qed
  have a': "uint (word_of_int m :: byte) = m" using a by (simp add: m_def)
  have b': "uint (word_of_int (q mod 256) :: byte) = q mod 256" using b by (simp add: q_def)
  have c: "uint (word_of_int (q mod 256) :: byte) = (if 0 \<le> q then q else q + 256)"
    using b' qm by simp
  have "get_int16 (word_of_int m) (word_of_int (q mod 256)) =
      (if m + 256 * (if 0 \<le> q then q else q + 256) < 32768
       then m + 256 * (if 0 \<le> q then q else q + 256)
       else m + 256 * (if 0 \<le> q then q else q + 256) - 65536)"
    by (simp only: get_int16_def a' c Let_def)
  also have "\<dots> = v" using v m q by auto
  finally have "get_int16 (word_of_int m) (word_of_int (q mod 256)) = v" .
  then show ?thesis by (simp add: q_def m_def)
qed


declare decode_records.simps [simp del]

lemma length_control_record: "length (control_record info) = 14"
  by (simp add: control_record_def put_int16_def)

lemma length_control_payload: "length (control_payload is) = 8 + 14 * length is"
  by (induction "is") (simp_all add: control_payload_def length_control_record)

lemma uint_byte: "uint8_ok v \<Longrightarrow> uint (word_of_int v :: byte) = v"
  by (simp add: uint_word_of_int uint8_ok_def)

lemma FrameInfo_eta:
  "\<lparr>BBox = \<lparr>MinP = Pt (X (MinP (BBox i))) (Y (MinP (BBox i))),
            MaxP = Pt (X (MaxP (BBox i))) (Y (MaxP (BBox i)))\<rparr>,
    Origin = Pt (X (Origin i)) (Y (Origin i)), Delay = Delay i, Action = Action i\<rparr> = i"
  by (simp add: Pt_def)

lemma decode_record:
  assumes "wire_ok info" "decode_records rest = Some is"
  shows "decode_records (control_record info @ rest) = Some (info # is)"
proof -
  from assms(1) have ok: "int16_ok (X (MinP (BBox info)))" "int16_ok (Y (MinP (BBox info)))"
     "int16_ok (X (MaxP (BBox info)))" "int16_ok (Y (MaxP (BBox info)))"
     "int16_ok (X (Origin info))" "int16_ok (Y (Origin info))"
     "uint8_ok (Delay info)" "uint8_ok (Action info)"
    by (simp_all add: wire_ok_def)
  have d: "drop 14 (control_record info @ rest) = rest"
    by (simp add: length_control_record)
  have n: "control_record info @ rest \<noteq> []" "\<not> length (control_record info @ rest) < 14"
    using length_control_record [of info] by auto
  show ?thesis
    apply (subst decode_records.simps)
    apply (simp only: n d assms(2) if_False option.case)
    apply (simp add: control_record_def put_int16_def get_put_int16 [OF ok(1)]
        get_put_int16 [OF ok(2)] get_put_int16 [OF ok(3)] get_put_int16 [OF ok(4)]
        get_put_int16 [OF ok(5)] get_put_int16 [OF ok(6)] uint_byte [OF ok(7)]
        uint_byte [OF ok(8)] FrameInfo_eta)
    done
qed

lemma decode_records_roundtrip:
  "\<forall>info \<in> set is. wire_ok info \<Longrightarrow> decode_records (concat (map control_record is)) = Some is"
proof (induction "is")
  case Nil
  then show ?case by (simp add: decode_records.simps)
next
  case (Cons info "is")
  then show ?case by (simp add: decode_record)
qed

lemma decode_control_roundtrip:
  "\<forall>info \<in> set is. wire_ok info \<Longrightarrow> decode_control (control_payload is) = Some is"
  by (simp add: decode_control_def control_payload_def decode_records_roundtrip)

lemma Draw_Rect: "Draw dst r src sp = Some dst' \<Longrightarrow> Rect dst' = Rect dst"
  by (auto simp: Draw_def Let_def split: if_splits)

lemma FindBbox_range:
  assumes fb: "FindBbox img = Some r"
    and b: "X (MinP (Bounds img)) \<le> X (MaxP (Bounds img))" "Y (MinP (Bounds img)) \<le> Y (MaxP (Bounds img))"
  shows "r = image_Rect 0 0 0 0 \<or>
     (X (MinP (Bounds img)) \<le> X (MinP r) \<and> X (MinP r) \<le> X (MaxP r) \<and> X (MaxP r) \<le> X (MaxP (Bounds img)) \<and>
      Y (MinP (Bounds img)) \<le> Y (MinP r) \<and> Y (MinP r) \<le> Y (MaxP r) \<and> Y (MaxP r) \<le> Y (MaxP (Bounds img)))"
proof -
  from fb obtain l t rt bt where
    sl: "scan_up (col_alpha img) (X (MinP (Bounds img))) (X (MaxP (Bounds img))) = Some l" and
    st: "scan_up (row_alpha img) (Y (MinP (Bounds img))) (Y (MaxP (Bounds img))) = Some t" and
    sr: "scan_down (col_alpha img) (X (MaxP (Bounds img)) - 1) (X (MinP (Bounds img))) = Some rt" and
    sb: "scan_down (row_alpha img) (Y (MaxP (Bounds img)) - 1) (Y (MinP (Bounds img))) = Some bt" and
    r: "r = (if rt + 1 < l \<or> bt + 1 < t then image_Rect 0 0 0 0
             else \<lparr>MinP = Pt l t, MaxP = Pt (rt + 1) (bt + 1)\<rparr>)"
    by (rule FindBbox_scans)
  from scan_up_spec [OF sl] b have L: "X (MinP (Bounds img)) \<le> l" "l \<le> X (MaxP (Bounds img))" by simp_all
  from scan_up_spec [OF st] b have T: "Y (MinP (Bounds img)) \<le> t" "t \<le> Y (MaxP (Bounds img))" by simp_all
  from scan_down_spec [OF sr] b have R: "rt + 1 \<le> X (MaxP (Bounds img))" "X (MinP (Bounds img)) \<le> rt + 1"
    by simp_all
  from scan_down_spec [OF sb] b have B: "bt + 1 \<le> Y (MaxP (Bounds img))" "Y (MinP (Bounds img)) \<le> bt + 1"
    by simp_all
  show ?thesis
  proof (cases "rt + 1 < l \<or> bt + 1 < t")
    case True
    then show ?thesis by (simp add: r)
  next
    case False
    with L T R B show ?thesis by (simp add: r)
  qed
qed

lemma wrap_range:
  assumes w: "wrap s canvas trim = Some (l, t)"
    and c: "Rect canvas = image_Rect 0 0 1024 1024"
    and s: "0 \<le> left s" "0 \<le> top' s" "top' s \<le> 1025"
  shows "0 \<le> l \<and> 0 \<le> t \<and> t \<le> 1025 \<and> (l = 0 \<or> l + Dx trim \<le> 1024)"
proof (cases "left s + Dx trim > Dx (Rect canvas)")
  case True
  with w obtain cb where cb: "FindBbox (as_Image canvas) = Some cb" and
    lt: "l = 0" "t = Y (MaxP cb) + 1"
    by (auto simp: wrap_def split: option.splits)
  have ne: "\<not> Empty (Bounds (as_Image canvas))" "0 \<le> Y (MinP (Bounds (as_Image canvas)))"
    by (simp_all add: as_Image_def c image_Rect_def Empty_def)
  from FindBbox_bottom_nonneg [OF cb ne] FindBbox_canvas_bottom [OF cb ne(1)]
  have "0 \<le> Y (MaxP cb)" "Y (MaxP cb) \<le> 1024"
    by (simp_all add: as_Image_def c image_Rect_def)
  with lt show ?thesis by simp
next
  case False
  with w have "l = left s" "t = top' s" by (simp_all add: wrap_def)
  with False s show ?thesis by (simp add: c Dx_def image_Rect_def)
qed

lemma quo_2: "0 \<le> a \<Longrightarrow> quo a 2 = a div 2"
  by (cases "a = 0") (simp_all add: quo_def)

lemma bounded_place:
  assumes inv: "bounded s" and f: "small f" and pl: "place s f = Some s'"
  shows "bounded s'"
proof -
  from pl obtain trim l t c' where
    trim: "FindBbox (as_Image (MakeImage f)) = Some trim" and
    w: "wrap s ((spriteImg s)\<lparr>Palette := Palette (MakeImage f)\<rparr>) trim = Some (l, t)" and
    d: "Draw ((spriteImg s)\<lparr>Palette := Palette (MakeImage f)\<rparr>)
       \<lparr>MinP = Pt l t, MaxP = Pt (l + Dx trim) (t + Dy trim)\<rparr> (MakeImage f) (MinP trim) = Some c'" and
    s': "s' = \<lparr>left = l + Dx trim + 1, top' = t,
        infos = infos s @ [\<lparr>BBox = \<lparr>MinP = Pt l t, MaxP = Pt (l + Dx trim) (t + Dy trim)\<rparr>,
                            Origin = Pt (quo (Dx (Rect (MakeImage f))) 2 - X (MinP trim))
                                        (quo (Dy (Rect (MakeImage f))) 2 - Y (MinP trim)),
                            Delay = frame_Delay f, Action = frame_Action f\<rparr>],
        fullPalette = frame_Palette f, spriteImg = c'\<rparr>"
    by (rule place_SomeE)
  from inv have c: "Rect (spriteImg s) = image_Rect 0 0 1024 1024"
    and s: "0 \<le> left s" "0 \<le> top' s" "top' s \<le> 1025"
    and old: "\<forall>info \<in> set (infos s). wire_ok info"
    by (simp_all add: bounded_def)
  from f have R: "0 \<le> X (MinP (Rect (MakeImage f)))" "X (MinP (Rect (MakeImage f))) \<le> X (MaxP (Rect (MakeImage f)))"
    "X (MaxP (Rect (MakeImage f))) \<le> 16384"
    "0 \<le> Y (MinP (Rect (MakeImage f)))" "Y (MinP (Rect (MakeImage f))) \<le> Y (MaxP (Rect (MakeImage f)))"
    "Y (MaxP (Rect (MakeImage f))) \<le> 16384"
    and da: "uint8_ok (frame_Delay f)" "uint8_ok (frame_Action f)"
    by (simp_all add: small_def)
  from FindBbox_range [OF trim] R
  have tr: "0 \<le> X (MinP trim)" "X (MinP trim) \<le> X (MaxP trim)" "X (MaxP trim) \<le> 16384"
    "0 \<le> Y (MinP trim)" "Y (MinP trim) \<le> Y (MaxP trim)" "Y (MaxP trim) \<le> 16384"
    by (auto simp: as_Image_def image_Rect_def)
  then have sz: "0 \<le> Dx trim" "Dx trim \<le> 16384" "0 \<le> Dy trim" "Dy trim \<le> 16384"
    by (simp_all add: Dx_def Dy_def)
  from wrap_range [OF w _ s] c
  have lt: "0 \<le> l" "0 \<le> t" "t \<le> 1025" "l = 0 \<or> l + Dx trim \<le> 1024" by simp_all
  from R have q: "0 \<le> quo (Dx (Rect (MakeImage f))) 2" "quo (Dx (Rect (MakeImage f))) 2 \<le> 8192"
    "0 \<le> quo (Dy (Rect (MakeImage f))) 2" "quo (Dy (Rect (MakeImage f))) 2 \<le> 8192"
    by (simp_all add: quo_2 Dx_def Dy_def)
  have new: "wire_ok \<lparr>BBox = \<lparr>MinP = Pt l t, MaxP = Pt (l + Dx trim) (t + Dy trim)\<rparr>,
                            Origin = Pt (quo (Dx (Rect (MakeImage f))) 2 - X (MinP trim))
                                        (quo (Dy (Rect (MakeImage f))) 2 - Y (MinP trim)),
                            Delay = frame_Delay f, Action = frame_Action f\<rparr>"
    using lt sz tr q da by (auto simp: wire_ok_def int16_ok_def)
  from Draw_Rect [OF d] c have "Rect c' = image_Rect 0 0 1024 1024" by simp
  with new old lt sz show ?thesis by (auto simp: bounded_def s')
qed

lemma bounded_frames:
  "bounded s \<Longrightarrow> place_frames s fs = Some s' \<Longrightarrow> \<forall>f \<in> set fs. small f \<Longrightarrow> bounded s'"
proof (induction fs arbitrary: s)
  case Nil
  then show ?case by simp
next
  case (Cons f fs)
  from Cons.prems(2) obtain s1 where
    s1: "place s f = Some s1" "place_frames s1 fs = Some s'"
    by (auto split: option.splits)
  from bounded_place [OF Cons.prems(1) _ s1(1)] Cons.prems(3) have "bounded s1" by simp
  from Cons.IH [OF this s1(2)] Cons.prems(3) show ?case by simp
qed

lemma bounded_anims:
  "bounded s \<Longrightarrow> place_anims s as = Some s' \<Longrightarrow> \<forall>f \<in> set (all_frames as). small f \<Longrightarrow>
     bounded s'"
proof (induction as arbitrary: s)
  case Nil
  then show ?case by simp
next
  case (Cons a as)
  from Cons.prems(2) obtain s1 where
    s1: "place_frames s (Frames a) = Some s1" "place_anims s1 as = Some s'"
    by (auto split: option.splits)
  from Cons.prems(3) have fr: "\<forall>f \<in> set (Frames a). small f" "\<forall>f \<in> set (all_frames as). small f"
    by (simp_all add: all_frames_def)
  from bounded_frames [OF Cons.prems(1) s1(1) fr(1)] have "bounded s1" .
  from Cons.IH [OF this s1(2) fr(2)] show ?case .
qed

lemma bounded_initial: "bounded initial"
  by (simp add: bounded_def initial_def NewPaletted_def)

lemma compose_round_trip:
  assumes "compose anims = Some s" "\<forall>f \<in> set (all_frames anims). small f"
  shows "decode_control (control_payload (infos s)) = Some (infos s)"
proof -
  from bounded_anims [OF bounded_initial assms(1) [unfolded compose_def] assms(2)]
  have "\<forall>info \<in> set (infos s). wire_ok info" by (simp add: bounded_def)
  then show ?thesis by (rule decode_control_roundtrip)
qed

lemma speck_speck16:
  assumes "0 \<le> x" "x < 16" "0 \<le> y" "y < 16"
  shows "speck (speck16 x y) x y"
  using assms
  by (auto simp: speck_def speck16_def P2_def Paletted_At_def In_Pt image_Rect_def alpha_def)

lemma place_speck:
  assumes sp: "speck f x y"
    and c: "Rect (spriteImg s) = image_Rect 0 0 1024 1024"
    and pos: "0 \<le> left s" "left s < 1024" "0 \<le> top' s" "top' s < 1024"
    and bg: "Pix (spriteImg s) (left s) (top' s) = 0"
  shows "\<exists>c'. place s f =
      Some \<lparr>left = left s + 2, top' = top' s,
        infos = infos s @ [\<lparr>BBox = \<lparr>MinP = Pt (left s) (top' s), MaxP = Pt (left s + 1) (top' s + 1)\<rparr>,
                            Origin = Pt (8 - x) (8 - y), Delay = 5, Action = 1\<rparr>],
        fullPalette = frame_Palette f, spriteImg = c'\<rparr> \<and>
      Rect c' = image_Rect 0 0 1024 1024 \<and>
      (\<forall>x' y'. (x', y') \<noteq> (left s, top' s) \<longrightarrow> Pix c' x' y' = Pix (spriteImg s) x' y')"
proof -
  define img where "img = MakeImage f"
  define canvas where "canvas = (spriteImg s)\<lparr>Palette := Palette img\<rparr>"
  define trim where "trim = \<lparr>MinP = Pt x y, MaxP = Pt (x + 1) (y + 1)\<rparr>"
  define B where "B = \<lparr>MinP = Pt (left s) (top' s), MaxP = Pt (left s + 1) (top' s + 1)\<rparr>"
  from sp have r: "Rect img = image_Rect 0 0 16 16" and len: "length (Palette img) = 2"
    and da: "frame_Delay f = 5" "frame_Action f = 1"
    and inb: "In (Pt x y) (image_Rect 0 0 16 16)"
    and others: "\<And>x' y'. In (Pt x' y') (image_Rect 0 0 16 16) \<Longrightarrow> (x', y') \<noteq> (x, y) \<Longrightarrow>
        \<exists>c'. Paletted_At img x' y' = Some c' \<and> alpha c' = 0"
    by (simp_all add: speck_def img_def)
  from sp obtain col where col: "Paletted_At img x y = Some col" "alpha col \<noteq> 0"
    by (auto simp: speck_def img_def)
  have fb: "FindBbox (as_Image img) = Some trim"
    unfolding trim_def
    by (rule FindBbox_single_pixel [of x y _ col])
       (use inb col others in \<open>simp_all add: as_Image_def r\<close>)
  have d: "Dx trim = 1" "Dy trim = 1" "MinP trim = Pt x y"
    by (simp_all add: trim_def Dx_def Dy_def)
  have dc: "Dx (Rect canvas) = 1024" by (simp add: canvas_def c Dx_def image_Rect_def)
  have w: "wrap s canvas trim = Some (left s, top' s)"
    using pos by (simp add: wrap_def dc d(1))
  have clip: "In (Pt x' y') (clip (Rect canvas) B (Rect img) (Pt x y)) \<longleftrightarrow>
      x' = left s \<and> y' = top' s" for x' y'
    using pos inb by (auto simp: In_clip) (auto simp: In_Pt B_def canvas_def c r image_Rect_def)
  have dst: "Paletted_At canvas (left s) (top' s) \<noteq> None"
    using pos len bg by (auto simp: Paletted_At_def canvas_def c In_Pt image_Rect_def)
  have px: "draw_pixel canvas img (MinP B) (Pt x y) x' y' \<noteq> None"
    if "In (Pt x' y') (clip (Rect canvas) B (Rect img) (Pt x y))" for x' y'
  proof -
    from that have "x' = left s" "y' = top' s" by (simp_all add: clip)
    with dst col(1) show ?thesis by (auto simp: draw_pixel_def B_def)
  qed
  define c' where "c' = canvas\<lparr>Pix := (\<lambda>x' y'.
      if In (Pt x' y') (clip (Rect canvas) B (Rect img) (Pt x y))
      then the (draw_pixel canvas img (MinP B) (Pt x y) x' y') else Pix canvas x' y')\<rparr>"
  from Draw_Some [of canvas B img "Pt x y", OF px]
  have dr: "Draw canvas B img (Pt x y) = Some c'" by (simp add: c'_def)
  have q: "quo (Dx (Rect img)) 2 = 8" "quo (Dy (Rect img)) 2 = 8"
    by (simp_all add: r quo_def Dx_def Dy_def image_Rect_def)
  have "place s f =
      Some \<lparr>left = left s + 2, top' = top' s,
        infos = infos s @ [\<lparr>BBox = B, Origin = Pt (8 - x) (8 - y), Delay = 5, Action = 1\<rparr>],
        fullPalette = frame_Palette f, spriteImg = c'\<rparr>"
    using fb w dr
    by (simp add: place_def Let_def img_def [symmetric] canvas_def [symmetric] d q da B_def)
  moreover have "Rect c' = image_Rect 0 0 1024 1024" by (simp add: c'_def canvas_def c)
  moreover have "\<forall>x' y'. (x', y') \<noteq> (left s, top' s) \<longrightarrow> Pix c' x' y' = Pix (spriteImg s) x' y'"
  proof (intro allI impI)
    fix x' y' assume "(x', y') \<noteq> (left s, top' s)"
    then have "\<not> In (Pt x' y') (clip (Rect canvas) B (Rect img) (Pt x y))" by (simp add: clip)
    then have "Pix c' x' y' = Pix canvas x' y'" by (simp add: c'_def)
    then show "Pix c' x' y' = Pix (spriteImg s) x' y'" by (simp add: canvas_def)
  qed
  ultimately show ?thesis unfolding B_def by blast
qed

lemma two_specks:
  assumes f1: "speck f1 x1 y1" and f2: "speck f2 x2 y2"
  shows "\<exists>s. compose [\<lparr>Frames = [f1, f2]\<rparr>] = Some s \<and>
     infos s = [\<lparr>BBox = \<lparr>MinP = Pt 0 0, MaxP = Pt 1 1\<rparr>, Origin = Pt (8 - x1) (8 - y1),
                  Delay = 5, Action = 1\<rparr>,
                \<lparr>BBox = \<lparr>MinP = Pt 2 0, MaxP = Pt 3 1\<rparr>, Origin = Pt (8 - x2) (8 - y2),
                  Delay = 5, Action = 1\<rparr>]"
proof -
  from place_speck [OF f1, of initial] obtain c1 where
    p1: "place initial f1 =
      Some \<lparr>left = 2, top' = 0,
        infos = [\<lparr>BBox = \<lparr>MinP = Pt 0 0, MaxP = Pt 1 1\<rparr>,
                  Origin = Pt (8 - x1) (8 - y1), Delay = 5, Action = 1\<rparr>],
        fullPalette = frame_Palette f1, spriteImg = c1\<rparr>" and
    c1: "Rect c1 = image_Rect 0 0 1024 1024"
      "\<forall>x' y'. (x', y') \<noteq> (0, 0) \<longrightarrow> Pix c1 x' y' = Pix (spriteImg initial) x' y'"
    by (auto simp: initial_def NewPaletted_def)
  define s1 where "s1 = \<lparr>left = 2, top' = 0,
        infos = [\<lparr>BBox = \<lparr>MinP = Pt 0 0, MaxP = Pt 1 1\<rparr>,
                  Origin = Pt (8 - x1) (8 - y1), Delay = 5, Action = 1\<rparr>],
        fullPalette = frame_Palette f1, spriteImg = c1\<rparr>"
  from c1(2) have "Pix c1 2 0 = 0" by (simp add: initial_def NewPaletted_def)
  with place_speck [OF f2, of s1] c1(1) obtain c2 where
    p2: "place s1 f2 =
      Some \<lparr>left = 4, top' = 0,
        infos = infos s1 @ [\<lparr>BBox = \<lparr>MinP = Pt 2 0, MaxP = Pt 3 1\<rparr>,
                  Origin = Pt (8 - x2) (8 - y2), Delay = 5, Action = 1\<rparr>],
        fullPalette = frame_Palette f2, spriteImg = c2\<rparr>"
    by (auto simp: s1_def)
  from p1 p2 show ?thesis
    by (simp add: compose_def s1_def [symmetric]) (simp add: s1_def)
qed

lemma get_int16_range: "int16_ok (get_int16 lo hi)"
proof -
  define v where "v = uint lo + 256 * uint hi"
  have "uint lo < 2 ^ LENGTH(8)" "uint hi < 2 ^ LENGTH(8)" by (rule uint_lt2p)+
  then have "uint lo < 256" "uint hi < 256" by simp_all
  moreover have "0 \<le> uint lo" "0 \<le> uint hi" by simp_all
  ultimately have v: "0 \<le> v" "v < 65536" unfolding v_def by linarith+
  have "get_int16 lo hi = (if v < 32768 then v else v - 65536)"
    by (simp add: get_int16_def v_def Let_def)
  with v show ?thesis by (auto simp: int16_ok_def)
qed

lemma uint_byte_range: "uint8_ok (uint (b :: byte))"
proof -
  have "uint b < 2 ^ LENGTH(8)" by (rule uint_lt2p)
  then show ?thesis by (simp add: uint8_ok_def)
qed

lemma decode_records_wire:
  "decode_records bs = Some is \<Longrightarrow> \<forall>info \<in> set is. wire_ok info"
proof (induction bs arbitrary: "is" rule: decode_records.induct)
  case (1 bs)
  show ?case
  proof (cases "bs = []")
    case True
    with "1.prems" show ?thesis by (simp add: decode_records.simps)
  next
    case False
    with "1.prems" have len: "\<not> length bs < 14"
      by (subst (asm) decode_records.simps) (auto split: if_splits)
    with "1.prems" False obtain rest where
      rest: "decode_records (drop 14 bs) = Some rest" and
      eq: "is = \<lparr>BBox = \<lparr>MinP = Pt (get_int16 (bs ! 0) (bs ! 1)) (get_int16 (bs ! 2) (bs ! 3)),
                            MaxP = Pt (get_int16 (bs ! 4) (bs ! 5)) (get_int16 (bs ! 6) (bs ! 7))\<rparr>,
                    Origin = Pt (get_int16 (bs ! 8) (bs ! 9)) (get_int16 (bs ! 10) (bs ! 11)),
                    Delay = uint (bs ! 12), Action = uint (bs ! 13)\<rparr> # rest"
      by (subst (asm) decode_records.simps) (auto split: option.splits)
    from "1.IH" [OF False len rest] have "\<forall>info \<in> set rest. wire_ok info" .
    then show ?thesis
      by (simp add: eq wire_ok_def get_int16_range uint_byte_range)
  qed
qed

lemma decode_control_iff:
  "decode_control (control_payload is) = Some is \<longleftrightarrow> (\<forall>info \<in> set is. wire_ok info)"
proof
  assume "decode_control (control_payload is) = Some is"
  then have "decode_records (concat (map control_record is)) = Some is"
    by (simp add: decode_control_def control_payload_def)
  then show "\<forall>info \<in> set is. wire_ok info" by (rule decode_records_wire)
next
  assume "\<forall>info \<in> set is. wire_ok info"
  then show "decode_control (control_payload is) = Some is" by (rule decode_control_roundtrip)
qed

lemma blank_start: "FindBbox (as_Image ((spriteImg initial)\<lparr>Palette := P2\<rparr>)) = Some ZR"
proof -
  have tot: "total_on (as_Image ((spriteImg initial)\<lparr>Palette := P2\<rparr>))"
    using canvas_ok_initial by (intro total_indexed [of P2]) (simp_all add: canvas_ok_def P2_def)
  then obtain r where r: "FindBbox (as_Image ((spriteImg initial)\<lparr>Palette := P2\<rparr>)) = Some r"
    using FindBbox_total by blast
  have "r = ZR"
  proof (rule FindBbox_invisible [OF r])
    show "\<not> visible (as_Image ((spriteImg initial)\<lparr>Palette := P2\<rparr>)) x y" for x y
      using ink_initial [of x y] by (simp add: ink_def)
    show "\<not> Empty (Bounds (as_Image ((spriteImg initial)\<lparr>Palette := P2\<rparr>)))"
      by (simp add: as_Image_def initial_def NewPaletted_def image_Rect_def Empty_def)
  qed
  with r show ?thesis by simp
qed

lemma wide_example:
  "\<exists>s. compose [\<lparr>Frames = [solid 40000 1]\<rparr>] = Some s \<and>
     map BBox (infos s) = [\<lparr>MinP = Pt 0 1, MaxP = Pt 40000 2\<rparr>]"
proof -
  have "(0, 1) = (if left initial + 40000 > 1024 then (0, Y (MaxP ZR) + 1)
                  else (left initial, top' initial))"
    by (simp add: initial_def ZR_def)
  from place_solid [OF canvas_ok_initial _ _ blank_start this, of 1] obtain c1 where
    "place initial (solid 40000 1) =
      Some \<lparr>left = 40001, top' = 1,
        infos = [\<lparr>BBox = \<lparr>MinP = Pt 0 1, MaxP = Pt 40000 2\<rparr>,
                  Origin = Pt (quo 40000 2) (quo 1 2), Delay = 5, Action = 1\<rparr>],
        fullPalette = P2, spriteImg = c1\<rparr>"
    by (auto simp: initial_def)
  then show ?thesis by (simp add: compose_def)
qed

text \<open>
  Claim C5, as the code has it. Reading the control table back gives exactly the
  FrameInfo list of the composition if and only if every field is in the range of its
  encoding (\<open>int16\<close> for the six coordinates, \<open>uint8\<close> for delay and action); this is so
  whenever the frames are small.
\<close>

theorem control_table_round_trip:
  assumes "compose anims = Some s"
  shows "(decode_control (control_payload (infos s)) = Some (infos s) \<longleftrightarrow>
            (\<forall>info \<in> set (infos s). wire_ok info)) \<and>
         ((\<forall>f \<in> set (all_frames anims). small f) \<longrightarrow>
            decode_control (control_payload (infos s)) = Some (infos s))"
proof (intro conjI impI)
  show "decode_control (control_payload (infos s)) = Some (infos s) \<longleftrightarrow>
            (\<forall>info \<in> set (infos s). wire_ok info)"
    by (rule decode_control_iff)
next
  assume "\<forall>f \<in> set (all_frames anims). small f"
  with assms show "decode_control (control_payload (infos s)) = Some (infos s)"
    by (rule compose_round_trip)
qed

theorem control_table_round_trip_witness:
  "\<exists>s. compose [\<lparr>Frames = [solid 1 1, solid 1024 1]\<rparr>] = Some s \<and>
     decode_control (control_payload (infos s)) = Some (infos s)"
proof -
  from wrap_example obtain s1 s2 where
    p: "place initial (solid 1 1) = Some s1" "place s1 (solid 1024 1) = Some s2"
    by (elim exE conjE) (rule that)
  then have c: "compose [\<lparr>Frames = [solid 1 1, solid 1024 1]\<rparr>] = Some s2"
    by (simp add: compose_def)
  have "\<forall>f \<in> set (all_frames [\<lparr>Frames = [solid 1 1, solid 1024 1]\<rparr>]). small f"
    by (simp add: all_frames_def small_def solid_def block_def image_Rect_def uint8_ok_def)
  with control_table_round_trip [OF c] c show ?thesis by blast
qed

text \<open>
  Claim C5 as stated fails for a frame 40000 pixels wide: its rectangle ends at
  \<open>x = 40000\<close>, which \<open>int16\<close> turns into a negative number.
\<close>

theorem control_table_round_trip_counterexample:
  "\<exists>s. compose [\<lparr>Frames = [solid 40000 1]\<rparr>] = Some s \<and>
     decode_control (control_payload (infos s)) \<noteq> Some (infos s)"
proof -
  from wide_example obtain s where
    c: "compose [\<lparr>Frames = [solid 40000 1]\<rparr>] = Some s" and
    b: "map BBox (infos s) = [\<lparr>MinP = Pt 0 1, MaxP = Pt 40000 2\<rparr>]"
    by (elim exE conjE) (rule that)
  from b obtain i0 where eq: "infos s = [i0]" "BBox i0 = \<lparr>MinP = Pt 0 1, MaxP = Pt 40000 2\<rparr>"
    by (auto simp: map_eq_Cons_conv)
  then have "\<not> (\<forall>info \<in> set (infos s). wire_ok info)"
    by (simp add: wire_ok_def int16_ok_def)
  then have "decode_control (control_payload (infos s)) \<noteq> Some (infos s)"
    by (simp add: decode_control_iff)
  with c show ?thesis by blast
qed

text \<open>
  Claim C6, as the code has it. One Animation of two such frames composes into two
  FrameInfo entries, each of width and height 1, placed at \<open>(0,0)-(1,1)\<close> and
  \<open>(2,0)-(3,1)\<close>; the control chunk's payload has \<open>8 + 2 * 14 = 36\<close> bytes, 28 of them
  after the 8 bytes of keyword and format.
\<close>

theorem two_frame_example:
  assumes "speck f1 x1 y1" and "speck f2 x2 y2"
  shows "\<exists>s. compose [\<lparr>Frames = [f1, f2]\<rparr>] = Some s \<and> length (infos s) = 2 \<and>
     (\<forall>info \<in> set (infos s). Dx (BBox info) = 1 \<and> Dy (BBox info) = 1) \<and>
     map BBox (infos s) = [\<lparr>MinP = Pt 0 0, MaxP = Pt 1 1\<rparr>, \<lparr>MinP = Pt 2 0, MaxP = Pt 3 1\<rparr>] \<and>
     length (control_payload (infos s)) = 8 + 2 * 14 \<and>
     length (drop 8 (control_payload (infos s))) = 2 * 14"
proof -
  from two_specks [OF assms] obtain s where
    c: "compose [\<lparr>Frames = [f1, f2]\<rparr>] = Some s" and
    i: "infos s = [\<lparr>BBox = \<lparr>MinP = Pt 0 0, MaxP = Pt 1 1\<rparr>, Origin = Pt (8 - x1) (8 - y1),
                  Delay = 5, Action = 1\<rparr>,
                \<lparr>BBox = \<lparr>MinP = Pt 2 0, MaxP = Pt 3 1\<rparr>, Origin = Pt (8 - x2) (8 - y2),
                  Delay = 5, Action = 1\<rparr>]"
    by (elim exE conjE) (rule that)
  have "length (infos s) = 2" "\<forall>info \<in> set (infos s). Dx (BBox info) = 1 \<and> Dy (BBox info) = 1"
    "map BBox (infos s) = [\<lparr>MinP = Pt 0 0, MaxP = Pt 1 1\<rparr>, \<lparr>MinP = Pt 2 0, MaxP = Pt 3 1\<rparr>]"
    "length (control_payload (infos s)) = 8 + 2 * 14"
    "length (drop 8 (control_payload (infos s))) = 2 * 14"
    by (simp_all add: i Dx_def Dy_def length_control_payload)
  with c show ?thesis by (intro exI [of _ s] conjI)
qed

theorem two_frame_example_witness:
  "\<exists>s. compose [\<lparr>Frames = [speck16 3 4, speck16 7 9]\<rparr>] = Some s \<and>
     map BBox (infos s) = [\<lparr>MinP = Pt 0 0, MaxP = Pt 1 1\<rparr>, \<lparr>MinP = Pt 2 0, MaxP = Pt 3 1\<rparr>] \<and>
     length (control_payload (infos s)) = 36"
proof -
  have "speck (speck16 3 4) 3 4" "speck (speck16 7 9) 7 9"
    by (rule speck_speck16; simp)+
  from two_frame_example [OF this] show ?thesis by auto
qed

text \<open>
  Claim C6 as stated fails in its byte count: a record has 14 bytes, not 9, so the
  payload of the example has 36 bytes, 28 after the keyword and format, and not 26.
\<close>

theorem two_frame_example_counterexample:
  "\<exists>s. compose [\<lparr>Frames = [speck16 3 4, speck16 7 9]\<rparr>] = Some s \<and>
     length (control_payload (infos s)) = 36 \<and>
     length (drop 8 (control_payload (infos s))) = 28 \<and>
     length (drop 8 (control_payload (infos s))) \<noteq> 26 \<and>
     length (control_payload (infos s)) \<noteq> 26"
proof -
  have "speck (speck16 3 4) 3 4" "speck (speck16 7 9) 7 9"
    by (rule speck_speck16; simp)+
  from two_specks [OF this] obtain s where
    c: "compose [\<lparr>Frames = [speck16 3 4, speck16 7 9]\<rparr>] = Some s" and
    i: "length (infos s) = 2"
    by (elim exE conjE) simp
  from i have "length (control_payload (infos s)) = 36"
    "length (drop 8 (control_payload (infos s))) = 28"
    by (simp_all add: length_control_payload)
  with c show ?thesis by auto
qed

section \<open>Properties of the chunk rewriter\<close>

lemma Chunk_eta [simp]: "\<lparr>Length = Length c, Type = Type c, Data = Data c\<rparr> = c"
  by (cases c) simp

lemma WriteChunk_Inr: "WriteChunk werr out c = Inr out' \<Longrightarrow> out' = out @ [c]"
  by (auto simp: WriteChunk_def split: option.splits)

lemma inject_through:
  "inject werr pal is out = (None, out') \<Longrightarrow>
     \<exists>buf. palette_payload pal = Some buf \<and>
       out' = out @ [\<lparr>Length = int32 (length buf), Type = ''sPLT'', Data = buf\<rparr>,
                     \<lparr>Length = int32 (length (control_payload is)), Type = ''zTXt'',
                      Data = control_payload is\<rparr>]"
proof -
  assume a: "inject werr pal is out = (None, out')"
  then obtain buf where buf: "palette_payload pal = Some buf"
    by (cases "palette_payload pal") (simp_all add: inject_def)
  with a obtain out1 where w1: "WriteChunk werr out (sPLT buf) = Inr out1"
    by (cases "WriteChunk werr out (sPLT buf)") (simp_all add: inject_def)
  with a buf obtain out2 where
    w2: "WriteChunk werr out1 (zTXt (control_payload is)) = Inr out2" and o: "out' = out2"
    by (cases "WriteChunk werr out1 (zTXt (control_payload is))") (simp_all add: inject_def)
  from WriteChunk_Inr [OF w1] WriteChunk_Inr [OF w2] o
  have "out' = out @ [sPLT buf, zTXt (control_payload is)]" by simp
  with buf show ?thesis by (simp add: sPLT_def zTXt_def)
qed

lemma rewrite_through_aux:
  fixes buf :: "byte list" and "is" :: "FrameInfo list"
  defines "F \<equiv> \<lambda>chunk.
        if Type chunk = ''tRNS''
        then [chunk,
              \<lparr>Length = int32 (length buf), Type = ''sPLT'', Data = buf\<rparr>,
              \<lparr>Length = int32 (length (control_payload is)), Type = ''zTXt'',
               Data = control_payload is\<rparr>]
        else [chunk]"
  assumes pb: "palette_payload pal = Some buf \<or> palette_payload pal = None"
  shows "rewrite werr pal is rds out = (None, out') \<Longrightarrow>
     (list_ex (\<lambda>c. Type c = ''tRNS'') (chunks_read rds) \<longrightarrow> palette_payload pal = Some buf) \<and>
     out' = out @ concat (map F (chunks_read rds))"
proof (induction rds arbitrary: out)
  case Nil
  then show ?case by simp
next
  case (Cons rd rds)
  show ?case
  proof (cases "read_err rd = Some EOF")
    case True
    with Cons.prems show ?thesis by simp
  next
    case False
    with Cons.prems obtain chunk close where rc: "read_chunk rd = Some (chunk, close)"
      by (auto split: option.splits)
    with Cons.prems False obtain out1 where
      w: "WriteChunk werr out chunk = Inr out1"
      by (auto split: sum.splits)
    then have out1: "out1 = out @ [chunk]" by (rule WriteChunk_Inr)
    from Cons.prems False rc w obtain out2 where
      inj: "(if Type chunk = ''tRNS'' then inject werr pal is out1 else (None, out1)) = (None, out2)"
      and rest: "rewrite werr pal is rds out2 = (None, out')"
      by (auto split: prod.splits option.splits if_splits)
    have out2: "(Type chunk = ''tRNS'' \<longrightarrow> palette_payload pal = Some buf) \<and> out2 = out @ F chunk"
    proof (cases "Type chunk = ''tRNS''")
      case True
      with inj have "inject werr pal is out1 = (None, out2)" by simp
      from inject_through [OF this] obtain b where
        b: "palette_payload pal = Some b"
        "out2 = out1 @ [\<lparr>Length = int32 (length b), Type = ''sPLT'', Data = b\<rparr>,
                     \<lparr>Length = int32 (length (control_payload is)), Type = ''zTXt'',
                      Data = control_payload is\<rparr>]" by (elim exE conjE) (rule that)
      from b(1) pb have "b = buf" by simp
      with b True show ?thesis by (simp add: out1 F_def)
    next
      case False
      with inj show ?thesis by (simp add: out1 F_def)
    qed
    from False rc have cr: "chunks_read (rd # rds) = chunk # chunks_read rds" by simp
    from Cons.IH [OF rest] have
      ih: "list_ex (\<lambda>c. Type c = ''tRNS'') (chunks_read rds) \<longrightarrow> palette_payload pal = Some buf"
        "out' = out2 @ concat (map F (chunks_read rds))" by (rule conjunct1, rule conjunct2)
    from out2 have o: "Type chunk = ''tRNS'' \<longrightarrow> palette_payload pal = Some buf"
      "out2 = out @ F chunk" by (rule conjunct1, rule conjunct2)
    have "list_ex (\<lambda>c. Type c = ''tRNS'') (chunk # chunks_read rds) \<longrightarrow>
        palette_payload pal = Some buf"
      using ih(1) o(1) by simp
    moreover have "out' = out @ concat (map F (chunk # chunks_read rds))"
      unfolding ih(2) o(2) by simp
    ultimately show ?thesis unfolding cr by (rule conjI)
  qed
qed

lemma palette_entries_None:
  "palette_entries pal = None \<longleftrightarrow> (\<exists>c \<in> set pal. \<not> is_RGBA c)"
proof (induction pal)
  case Nil
  then show ?case by simp
next
  case (Cons c cs)
  then show ?case by (cases c) (auto split: option.splits)
qed

lemma inject_panics:
  "fst (inject werr pal is out) = Some Panicked \<longleftrightarrow> (\<exists>c \<in> set pal. \<not> is_RGBA c)"
  by (auto simp: inject_def palette_payload_def palette_entries_None [symmetric]
      split: option.splits sum.splits)

lemma rewrite_append:
  "rewrite werr pal is pre out = (None, out1) \<Longrightarrow> \<forall>r \<in> set pre. read_err r \<noteq> Some EOF \<Longrightarrow>
     rewrite werr pal is (pre @ rds) out = rewrite werr pal is rds out1"
proof (induction pre arbitrary: out)
  case Nil
  then show ?case by simp
next
  case (Cons rd pre)
  then show ?case
    by (auto split: option.splits sum.splits prod.splits if_splits)
qed

text \<open>
  Claim C1. When the loop runs through a chunk stream, every chunk read appears in the
  output unchanged (length, type and payload) and in the order read. Each \<open>tRNS\<close> chunk
  is followed immediately by two chunks: one of type \<open>sPLT\<close> whose data is the palette
  dump, then one of type \<open>zTXt\<close> whose data is the control table, each with the length
  of its data; and the output holds nothing else.
\<close>

theorem chunk_passthrough:
  assumes "rewrite werr pal is rds out = (None, out')"
  shows "\<exists>buf.
     (list_ex (\<lambda>c. Type c = ''tRNS'') (chunks_read rds) \<longrightarrow> palette_payload pal = Some buf) \<and>
     out' = out @ concat (map (\<lambda>chunk.
        if Type chunk = ''tRNS''
        then [chunk,
              \<lparr>Length = int32 (length buf), Type = ''sPLT'', Data = buf\<rparr>,
              \<lparr>Length = int32 (length (control_payload is)), Type = ''zTXt'',
               Data = control_payload is\<rparr>]
        else [chunk]) (chunks_read rds))"
proof (cases "palette_payload pal")
  case None
  then have "palette_payload pal = Some [] \<or> palette_payload pal = None" by simp
  from rewrite_through_aux [OF this assms] show ?thesis by (intro exI [of _ "[]"])
next
  case (Some buf)
  then have "palette_payload pal = Some buf \<or> palette_payload pal = None" by simp
  from rewrite_through_aux [OF this assms] show ?thesis by (intro exI [of _ buf])
qed

theorem chunk_passthrough_witness:
  "fst (rewrite (\<lambda>n. None) [RGBA 1 2 3 4] [sample_info] sample_reads []) = None \<and>
   snd (rewrite (\<lambda>n. None) [RGBA 1 2 3 4] [sample_info] sample_reads []) =
     [\<lparr>Length = 2, Type = ''IHDR'', Data = [1, 2]\<rparr>,
      \<lparr>Length = 1, Type = ''tRNS'', Data = [0]\<rparr>,
      \<lparr>Length = 12, Type = ''sPLT'',
       Data = map of_char ''full'' @ [0, 8, 1, 2, 3, 4, 0xff, 0xff]\<rparr>,
      \<lparr>Length = 22, Type = ''zTXt'',
       Data = map of_char ''fsctrl'' @ [0, 0xff, 0, 0, 0, 0, 1, 0, 1, 0, 8, 0, 8, 0, 5, 1]\<rparr>,
      \<lparr>Length = 0, Type = ''IEND'', Data = []\<rparr>]"
proof -
  obtain out' where h: "rewrite (\<lambda>n. None) [RGBA 1 2 3 4] [sample_info] sample_reads [] = (None, out')"
    by (simp add: sample_reads_def IHDR_def tRNS_def IEND_def WriteChunk_def inject_def
        palette_payload_def)
  have cp: "control_payload [sample_info] =
      map of_char ''fsctrl'' @ [0, 0xff, 0, 0, 0, 0, 1, 0, 1, 0, 8, 0, 8, 0, 5, 1]"
    by (simp add: control_payload_def control_record_def put_int16_def sample_info_def Pt_def)
  have pp: "palette_payload [RGBA 1 2 3 4] = Some (map of_char ''full'' @ [0, 8, 1, 2, 3, 4, 0xff, 0xff])"
    by (simp add: palette_payload_def)
  have tr: "list_ex (\<lambda>c. Type c = ''tRNS'') (chunks_read sample_reads)"
    by (simp add: sample_reads_def IHDR_def tRNS_def IEND_def)
  from chunk_passthrough [OF h] tr obtain buf where
    b: "palette_payload [RGBA 1 2 3 4] = Some buf" and
    o: "out' = [] @ concat (map (\<lambda>chunk.
        if Type chunk = ''tRNS''
        then [chunk,
              \<lparr>Length = int32 (length buf), Type = ''sPLT'', Data = buf\<rparr>,
              \<lparr>Length = int32 (length (control_payload [sample_info])), Type = ''zTXt'',
               Data = control_payload [sample_info]\<rparr>]
        else [chunk]) (chunks_read sample_reads))"
    by (elim exE conjE impE) (assumption, rule that)
  from b pp have buf: "buf = map of_char ''full'' @ [0, 8, 1, 2, 3, 4, 0xff, 0xff]" by simp
  have "out' =
     [\<lparr>Length = 2, Type = ''IHDR'', Data = [1, 2]\<rparr>,
      \<lparr>Length = 1, Type = ''tRNS'', Data = [0]\<rparr>,
      \<lparr>Length = 12, Type = ''sPLT'',
       Data = map of_char ''full'' @ [0, 8, 1, 2, 3, 4, 0xff, 0xff]\<rparr>,
      \<lparr>Length = 22, Type = ''zTXt'',
       Data = map of_char ''fsctrl'' @ [0, 0xff, 0, 0, 0, 0, 1, 0, 1, 0, 8, 0, 8, 0, 5, 1]\<rparr>,
      \<lparr>Length = 0, Type = ''IEND'', Data = []\<rparr>]"
    unfolding o cp buf
    by (simp add: sample_reads_def IHDR_def tRNS_def IEND_def int32_def)
  with h show ?thesis by simp
qed

lemma rewrite_malformed:
  "rewrite werr pal is (\<lparr>read_chunk = None, read_err = Some (Failure msg)\<rparr> # rds) out
     = (Some Panicked, out)"
  by simp

section \<open>Properties of \<open>processOne\<close>\<close>

lemma FindBbox_no_palette:
  "FindBbox (as_Image (spriteImg initial)) = None"
proof -
  have "any_alpha (\<lambda>y. Paletted_At (spriteImg initial) 0 y) 0 1024 = None"
    by (subst any_alpha.simps) (simp add: Paletted_At_def initial_def NewPaletted_def)
  then have "col_alpha (as_Image (spriteImg initial)) 0 = None"
    by (simp add: col_alpha_def as_Image_def initial_def NewPaletted_def image_Rect_def)
  then have "scan_up (col_alpha (as_Image (spriteImg initial))) 0 1024 = None"
    by (subst scan_up.simps) simp
  then show ?thesis
    by (simp add: FindBbox_def as_Image_def initial_def NewPaletted_def image_Rect_def)
qed

lemma processOne_empty:
  "processOne env idx [] = \<lparr>ended = Panicked, created = None, written = []\<rparr>"
  by (simp add: processOne_def compose_def FindBbox_no_palette)

lemma processOne_loop:
  assumes "compose anims = Some s" "FindBbox (as_Image (spriteImg s)) = Some box"
    "Dx (Rect (SubImage (spriteImg s) box)) \<noteq> 0" "Dy (Rect (SubImage (spriteImg s) box)) \<noteq> 0"
    "create_err env = None" "reader_err env = None" "writer_err env = None"
  shows "processOne env idx anims =
     (case rewrite (write_err env) (fullPalette s) (infos s) (reads env) [] of
        (Some stop, out) \<Rightarrow> \<lparr>ended = stop, created = Some idx, written = out\<rparr>
      | (None, out) \<Rightarrow> \<lparr>ended = Returned (encode_err env), created = Some idx, written = out\<rparr>)"
  using assms by (simp add: processOne_def Let_def)

lemma processOne_skip:
  assumes "compose anims = Some s" "FindBbox (as_Image (spriteImg s)) = Some box"
    "Dx (Rect (SubImage (spriteImg s) box)) = 0 \<or> Dy (Rect (SubImage (spriteImg s) box)) = 0"
  shows "processOne env idx anims = \<lparr>ended = Returned None, created = None, written = []\<rparr>"
  using assms by (auto simp: processOne_def Let_def)

lemma SubImage_ZR: "Rect (SubImage p ZR) = ZR"
  by (simp add: SubImage_def Intersect_def Let_def Empty_def ZR_def)

lemma blank_canvas_skipped:
  assumes c: "compose anims = Some s"
    and tot: "total_on (as_Image (spriteImg s))"
    and ne: "\<not> Empty (Rect (spriteImg s))"
    and blank: "\<And>x y. \<not> visible (as_Image (spriteImg s)) x y"
  shows "processOne env idx anims = \<lparr>ended = Returned None, created = None, written = []\<rparr>"
proof -
  from FindBbox_total [OF tot] obtain box where b: "FindBbox (as_Image (spriteImg s)) = Some box"
    by blast
  from FindBbox_invisible [OF b blank] ne have "box = ZR" by (simp add: as_Image_def)
  then have "Dx (Rect (SubImage (spriteImg s) box)) = 0"
    by (simp add: SubImage_ZR) (simp add: ZR_def Dx_def)
  with processOne_skip [OF c b] show ?thesis by simp
qed

lemma one_block:
  assumes tt: "two_tone P"
  shows "\<exists>s. compose [\<lparr>Frames = [block P 1 1]\<rparr>] = Some s \<and> fullPalette s = P \<and>
           infos s = [\<lparr>BBox = \<lparr>MinP = Pt 0 0, MaxP = Pt 1 1\<rparr>, Origin = Pt (quo 1 2) (quo 1 2),
                        Delay = 5, Action = 1\<rparr>] \<and>
           FindBbox (as_Image (spriteImg s)) = Some (image_Rect 0 0 1 1) \<and>
           Rect (spriteImg s) = image_Rect 0 0 1024 1024"
proof -
  have "(0, 0) = (if left initial + 1 > 1024 then (0, Y (MaxP ZR) + 1) else (left initial, top' initial))"
    by (simp add: initial_def)
  from place_block [OF tt canvas_ok_start [OF tt] _ _ _ this, of 1] obtain c1 where
    p1: "place initial (block P 1 1) =
      Some \<lparr>left = 2, top' = 0,
        infos = [\<lparr>BBox = \<lparr>MinP = Pt 0 0, MaxP = Pt 1 1\<rparr>,
                            Origin = Pt (quo 1 2) (quo 1 2), Delay = 5, Action = 1\<rparr>],
        fullPalette = P, spriteImg = c1\<rparr>" and
    c1: "canvas_ok P c1" "Palette c1 = P" and
    i1: "\<forall>x y. ink P c1 x y \<longleftrightarrow> ink P (spriteImg initial) x y \<or>
         (0 \<le> x \<and> x < 0 + 1 \<and> 0 \<le> y \<and> y < 0 + 1 \<and> In (Pt x y) (image_Rect 0 0 1024 1024))"
    by (auto simp: initial_def)
  have "\<And>x y. ink P c1 x y \<longleftrightarrow> In (Pt x y) (image_Rect 0 0 1 1)"
    using i1 by (auto simp: ink_start [OF tt] In_Pt image_Rect_def)
  from FindBbox_canvas_rect_gen [OF tt c1(1) _ this]
  have "FindBbox (as_Image c1) = Some (image_Rect 0 0 1 1)"
    by (simp add: Empty_def image_Rect_def same_palette [OF c1(2)])
  with p1 c1 show ?thesis by (simp add: compose_def canvas_ok_def)
qed

lemma SubImage_unit:
  assumes "Rect p = image_Rect 0 0 1024 1024"
  shows "Dx (Rect (SubImage p (image_Rect 0 0 1 1))) = 1" "Dy (Rect (SubImage p (image_Rect 0 0 1 1))) = 1"
  using assms by (simp_all add: SubImage_def Intersect_def Let_def Empty_def image_Rect_def Dx_def Dy_def)

lemma processOne_one_block:
  assumes tt: "two_tone P"
    and env: "create_err env = None" "reader_err env = None" "writer_err env = None"
  shows "processOne env idx [\<lparr>Frames = [block P 1 1]\<rparr>] =
     (case rewrite (write_err env) P
             [\<lparr>BBox = \<lparr>MinP = Pt 0 0, MaxP = Pt 1 1\<rparr>, Origin = Pt (quo 1 2) (quo 1 2),
               Delay = 5, Action = 1\<rparr>] (reads env) [] of
        (Some stop, out) \<Rightarrow> \<lparr>ended = stop, created = Some idx, written = out\<rparr>
      | (None, out) \<Rightarrow> \<lparr>ended = Returned (encode_err env), created = Some idx, written = out\<rparr>)"
proof -
  from one_block [OF tt] obtain s where
    s: "compose [\<lparr>Frames = [block P 1 1]\<rparr>] = Some s" "fullPalette s = P"
      "infos s = [\<lparr>BBox = \<lparr>MinP = Pt 0 0, MaxP = Pt 1 1\<rparr>, Origin = Pt (quo 1 2) (quo 1 2),
                        Delay = 5, Action = 1\<rparr>]"
      "FindBbox (as_Image (spriteImg s)) = Some (image_Rect 0 0 1 1)"
      "Rect (spriteImg s) = image_Rect 0 0 1024 1024"
    by (elim exE conjE) (rule that)
  from processOne_loop [OF s(1) s(4) _ _ env, of idx] SubImage_unit [OF s(5)] s(2,3)
  show ?thesis by simp
qed

lemma place_frames_palette:
  "place_frames s fs = Some s' \<Longrightarrow>
     fullPalette s' = (if fs = [] then fullPalette s else frame_Palette (last fs))"
proof (induction fs arbitrary: s)
  case Nil
  then show ?case by simp
next
  case (Cons f fs)
  from Cons.prems obtain s1 where s1: "place s f = Some s1" "place_frames s1 fs = Some s'"
    by (auto split: option.splits)
  from place_info [OF s1(1)] have "fullPalette s1 = frame_Palette f" by blast
  with Cons.IH [OF s1(2)] show ?case by simp
qed

lemma place_anims_palette:
  "place_anims s as = Some s' \<Longrightarrow>
     fullPalette s' = (if all_frames as = [] then fullPalette s
                       else frame_Palette (last (all_frames as)))"
proof (induction as arbitrary: s)
  case Nil
  then show ?case by (simp add: all_frames_def)
next
  case (Cons a as)
  from Cons.prems obtain s1 where
    s1: "place_frames s (Frames a) = Some s1" "place_anims s1 as = Some s'"
    by (auto split: option.splits)
  have af: "all_frames (a # as) = Frames a @ all_frames as" by (simp add: all_frames_def)
  from place_frames_palette [OF s1(1)] Cons.IH [OF s1(2)] show ?case
    by (simp add: af)
qed

lemma rewrite_tRNS_panics:
  assumes "read_err rd \<noteq> Some EOF" "read_chunk rd = Some (chunk, close)" "Type chunk = ''tRNS''"
    "werr (length out) = None" "\<exists>c \<in> set pal. \<not> is_RGBA c"
  shows "rewrite werr pal is (rd # rest) out = (Some Panicked, out @ [chunk])"
proof -
  from assms(5) have "palette_payload pal = None"
    by (simp add: palette_payload_def palette_entries_None [symmetric])
  then have "inject werr pal is (out @ [chunk]) = (Some Panicked, out @ [chunk])"
    by (simp add: inject_def)
  with assms(1-4) show ?thesis by (simp add: WriteChunk_def)
qed

lemma processOne_tRNS_panics:
  assumes "compose anims = Some s"
    and "FindBbox (as_Image (spriteImg s)) = Some box"
    and "Dx (Rect (SubImage (spriteImg s) box)) \<noteq> 0" "Dy (Rect (SubImage (spriteImg s) box)) \<noteq> 0"
    and "create_err env = None" "reader_err env = None" "writer_err env = None"
    and "reads env = pre @ rd # rest"
    and "rewrite (write_err env) (fullPalette s) (infos s) pre [] = (None, out)"
    and "\<forall>r \<in> set pre. read_err r \<noteq> Some EOF"
    and "read_err rd \<noteq> Some EOF" "read_chunk rd = Some (chunk, close)" "Type chunk = ''tRNS''"
    and "write_err env (length out) = None"
    and "\<exists>c \<in> set (fullPalette s). \<not> is_RGBA c"
  shows "ended (processOne env idx anims) = Panicked"
proof -
  from rewrite_append [OF assms(9,10)]
    rewrite_tRNS_panics [of rd chunk close "write_err env" out "fullPalette s", OF assms(11-15)]
  have "rewrite (write_err env) (fullPalette s) (infos s) (reads env) [] =
      (Some Panicked, out @ [chunk])"
    by (simp add: assms(8))
  with processOne_loop [OF assms(1-7), of idx] show ?thesis by simp
qed

text \<open>
  Claim C3, at the failing input. Every call succeeds, but the reader's first result is
  a nil chunk and an error that is not end-of-stream. The job does not return that
  error: the loop goes on to use the chunk, and the call panics.
\<close>

theorem malformed_chunk_not_returned:
  "processOne truncated idx [\<lparr>Frames = [solid 1 1]\<rparr>] =
     \<lparr>ended = Panicked, created = Some idx, written = []\<rparr>"
proof -
  have "processOne truncated idx [\<lparr>Frames = [block P2 1 1]\<rparr>] =
     \<lparr>ended = Panicked, created = Some idx, written = []\<rparr>"
    by (subst processOne_one_block [OF two_tone_P2]) (simp_all add: truncated_def)
  then show ?thesis by (simp add: solid_def)
qed

text \<open>
  Claim C9, at the failing input. For a SpriteSet without frames the canvas keeps its
  nil palette, \<open>At\<close> returns the nil colour, and \<open>FindBbox(spriteImg)\<close> panics on line 133:
  the job neither returns nor skips. (For a canvas with a palette and no visible pixel
  the job is skipped, see \<open>blank_canvas_skipped\<close>.)
\<close>

theorem empty_sprite_set_panics:
  "processOne env idx [] = \<lparr>ended = Panicked, created = None, written = []\<rparr>"
  by (rule processOne_empty)

text \<open>
  Claim C10. The palette recorded for the palette chunk is the palette of the last
  frame composed. Once the loop has written a \<open>tRNS\<close> chunk, the block that builds the
  palette chunk panics exactly when some entry of that palette is not a \<open>color.RGBA\<close>,
  and then the whole call panics.
\<close>

theorem palette_entries_must_be_RGBA:
  assumes "compose anims = Some s"
    and "FindBbox (as_Image (spriteImg s)) = Some box"
    and "Dx (Rect (SubImage (spriteImg s) box)) \<noteq> 0" "Dy (Rect (SubImage (spriteImg s) box)) \<noteq> 0"
    and "create_err env = None" "reader_err env = None" "writer_err env = None"
    and "reads env = pre @ rd # rest"
    and "rewrite (write_err env) (fullPalette s) (infos s) pre [] = (None, out)"
    and "\<forall>r \<in> set pre. read_err r \<noteq> Some EOF"
    and "read_err rd \<noteq> Some EOF" "read_chunk rd = Some (chunk, close)" "Type chunk = ''tRNS''"
    and "write_err env (length out) = None"
  shows "(all_frames anims \<noteq> [] \<longrightarrow> fullPalette s = frame_Palette (last (all_frames anims))) \<and>
         (fst (inject (write_err env) (fullPalette s) (infos s) (out @ [chunk])) = Some Panicked
            \<longleftrightarrow> (\<exists>c \<in> set (fullPalette s). \<not> is_RGBA c)) \<and>
         ((\<exists>c \<in> set (fullPalette s). \<not> is_RGBA c) \<longrightarrow>
            ended (processOne env idx anims) = Panicked)"
proof (intro conjI impI)
  assume "all_frames anims \<noteq> []"
  with place_anims_palette [OF assms(1) [unfolded compose_def]]
  show "fullPalette s = frame_Palette (last (all_frames anims))" by simp
next
  show "fst (inject (write_err env) (fullPalette s) (infos s) (out @ [chunk])) = Some Panicked
            \<longleftrightarrow> (\<exists>c \<in> set (fullPalette s). \<not> is_RGBA c)"
    by (rule inject_panics)
next
  assume "\<exists>c \<in> set (fullPalette s). \<not> is_RGBA c"
  with assms show "ended (processOne env idx anims) = Panicked"
    by (rule processOne_tRNS_panics)
qed

theorem palette_entries_must_be_RGBA_witness:
  "ended (processOne tRNS_only 7 [\<lparr>Frames = [block PO 1 1]\<rparr>]) = Panicked"
proof -
  from one_block [OF two_tone_PO] obtain s where
    s: "compose [\<lparr>Frames = [block PO 1 1]\<rparr>] = Some s" "fullPalette s = PO"
      "FindBbox (as_Image (spriteImg s)) = Some (image_Rect 0 0 1 1)"
      "Rect (spriteImg s) = image_Rect 0 0 1024 1024"
    by (elim exE conjE) (rule that)
  note d = SubImage_unit [OF s(4)]
  have h3: "Dx (Rect (SubImage (spriteImg s) (image_Rect 0 0 1 1))) \<noteq> 0"
    and h4: "Dy (Rect (SubImage (spriteImg s) (image_Rect 0 0 1 1))) \<noteq> 0"
    by (simp_all add: d)
  have e: "create_err tRNS_only = None" "reader_err tRNS_only = None" "writer_err tRNS_only = None"
    by (simp_all add: tRNS_only_def)
  have r: "reads tRNS_only = [] @ \<lparr>read_chunk = Some (tRNS, None), read_err = None\<rparr> # []"
    by (simp add: tRNS_only_def)
  have l: "rewrite (write_err tRNS_only) (fullPalette s) (infos s) [] [] = (None, [])"
    by simp
  have p: "\<forall>r \<in> set []. read_err r \<noteq> Some EOF" by simp
  have k: "read_err \<lparr>read_chunk = Some (tRNS, None), read_err = None\<rparr> \<noteq> Some EOF"
    "read_chunk \<lparr>read_chunk = Some (tRNS, None), read_err = None\<rparr> = Some (tRNS, None)"
    "Type tRNS = ''tRNS''" "write_err tRNS_only (length []) = None"
    by (simp_all add: tRNS_def tRNS_only_def)
  have bad: "\<exists>c \<in> set (fullPalette s). \<not> is_RGBA c" by (simp add: s(2) PO_def)
  from palette_entries_must_be_RGBA [OF s(1) s(3) h3 h4 e r l p k, of 7] bad
  show ?thesis by blast
qed

section \<open>Properties of the worker pool\<close>

























text \<open>
  No execution of that batch gets further: every state of it is one of six, and in none
  of them has job 1 or job 2 run or is the channel closed.
\<close>

lemma lone_step:
  assumes "lone p" "step first_fails 1 p p'"
  shows "lone p'"
  using assms(2)
proof (cases rule: step.cases)
  case (send j js)
  with assms(1) show ?thesis by (auto simp: lone_def)
next
  case close
  with assms(1) show ?thesis by (auto simp: lone_def)
next
  case (recv i j js)
  with assms(1) show ?thesis by (auto simp: lone_def)
next
  case (job_ok i j)
  with assms(1) show ?thesis by (auto simp: lone_def first_fails_def)
next
  case (job_err i j e)
  with assms(1) show ?thesis by (auto simp: lone_def first_fails_def split: if_splits)
next
  case (job_panic i j)
  then show ?thesis by (simp add: first_fails_def split: if_splits)
next
  case (leave i)
  with assms(1) show ?thesis by (auto simp: lone_def)
qed

lemma reach_lone: "reach first_fails 1 [0, 1, 2] p \<Longrightarrow> lone p"
proof (induction rule: reach.induct)
  case reach_start
  show ?case by (simp add: lone_def start_def)
next
  case (reach_step p p')
  then show ?case by (auto intro: lone_step)
qed

lemma no_other_job_runs:
  "\<not> (\<exists>p. reach first_fails 1 [0, 1, 2] p \<and>
          (1 \<in> set (finished p) \<or> 2 \<in> set (finished p) \<or> shut p))"
proof
  assume "\<exists>p. reach first_fails 1 [0, 1, 2] p \<and>
          (1 \<in> set (finished p) \<or> 2 \<in> set (finished p) \<or> shut p)"
  then obtain p where "reach first_fails 1 [0, 1, 2] p"
    "1 \<in> set (finished p) \<or> 2 \<in> set (finished p) \<or> shut p" by (elim exE conjE)
  with reach_lone [of p] show False by (auto simp: lone_def)
qed


end
